theory Spec2Isabelle
  imports Main "HOL-Library.Word"
begin

unbundle bit_operations_syntax

section \<open>Data model of \<open>app/main.go\<close>\<close>

type_synonym byte = "8 word"
type_synonym uint16 = "16 word"
type_synonym uint32 = "32 word"

text \<open>
  A Go byte slice has a length and a capacity. Indexing \<open>s[i]\<close> is checked against the
  length, re-slicing \<open>s[lo:hi]\<close> against the capacity, and a failed check is a run-time
  panic. A slice is therefore modelled by the \<open>elems\<close> below its length followed by the
  \<open>spare\<close> bytes of its backing array between length and capacity.
\<close>

record slice =
  elems :: "byte list"
  spare :: "byte list"

datatype panic = IndexOutOfRange | SliceBoundsOutOfRange

definition full :: "byte list \<Rightarrow> slice" where
  \<comment> \<open>the slice returned by \<open>make([]byte, n)\<close> once filled: length = capacity\<close>
  "full xs = \<lparr>elems = xs, spare = []\<rparr>"

definition slen :: "slice \<Rightarrow> nat" where
  "slen s = length (elems s)"

definition scap :: "slice \<Rightarrow> nat" where
  "scap s = length (elems s) + length (spare s)"

definition backing :: "slice \<Rightarrow> byte list" where
  "backing s = elems s @ spare s"

definition bindP :: "panic + 'a \<Rightarrow> ('a \<Rightarrow> panic + 'b) \<Rightarrow> panic + 'b" where
  "bindP m f = (case m of Inl e \<Rightarrow> Inl e | Inr x \<Rightarrow> f x)"

definition index :: "slice \<Rightarrow> nat \<Rightarrow> panic + byte" where
  \<comment> \<open>\<open>buf[i]\<close>\<close>
  "index buf i = (if i < slen buf then Inr (elems buf ! i) else Inl IndexOutOfRange)"

definition reslice :: "slice \<Rightarrow> nat \<Rightarrow> nat \<Rightarrow> panic + byte list" where
  \<comment> \<open>the bytes of \<open>buf[lo:hi]\<close>\<close>
  "reslice buf lo hi =
     (if lo \<le> hi \<and> hi \<le> scap buf then Inr (take (hi - lo) (drop lo (backing buf)))
      else Inl SliceBoundsOutOfRange)"

definition Uint16 :: "byte list \<Rightarrow> uint16" where
  \<comment> \<open>\<open>binary.BigEndian.Uint16(b)\<close> on a two-byte slice\<close>
  "Uint16 b = ucast (b ! 1) OR push_bit 8 (ucast (b ! 0))"

definition Uint32 :: "byte list \<Rightarrow> uint32" where
  \<comment> \<open>\<open>binary.BigEndian.Uint32(b)\<close> on a four-byte slice\<close>
  "Uint32 b = ucast (b ! 3) OR push_bit 8 (ucast (b ! 2)) OR push_bit 16 (ucast (b ! 1))
                OR push_bit 24 (ucast (b ! 0))"

definition PutUint16 :: "byte list \<Rightarrow> nat \<Rightarrow> uint16 \<Rightarrow> byte list" where
  \<comment> \<open>\<open>binary.BigEndian.PutUint16(buf[k:k+2], v)\<close>\<close>
  "PutUint16 buf k v = buf[k := ucast (drop_bit 8 v), k + 1 := ucast v]"

definition PutUint32 :: "byte list \<Rightarrow> nat \<Rightarrow> uint32 \<Rightarrow> byte list" where
  \<comment> \<open>\<open>binary.BigEndian.PutUint32(buf[k:k+4], v)\<close>\<close>
  "PutUint32 buf k v =
     buf[k := ucast (drop_bit 24 v), k + 1 := ucast (drop_bit 16 v),
         k + 2 := ucast (drop_bit 8 v), k + 3 := ucast v]"

definition copy_at :: "byte list \<Rightarrow> nat \<Rightarrow> byte list \<Rightarrow> byte list" where
  \<comment> \<open>\<open>copy(buf[k:], src)\<close>: copies as many bytes as fit\<close>
  "copy_at buf k src = take k buf @ take (length buf - k) src @ drop (k + length src) buf"

record Header =
  ID :: uint16
  QR :: byte
  OpCode :: byte
  AuthorativeAnswer :: byte
  Truncation :: byte
  RecursionDesired :: byte
  RecursionAvailable :: byte
  Reserved :: byte
  ResponseCode :: byte
  QuestionCount :: uint16
  AnswerRecordCount :: uint16
  AuthorativeRecordCount :: uint16
  AdditionalRecordCount :: uint16

record Question =
  QName :: string
  QType :: uint16
  QClass :: uint16

record Answer =
  AName :: string
  AType :: uint16
  AClass :: uint16
  TTL :: uint32
  RDLength :: uint16
  RData :: "byte list"

record Message =
  MHeader :: Header
  MQuestion :: "Question list"
  MAnswer :: "Answer list"
  Authority :: byte
  Additional :: byte

section \<open>Encoders\<close>

definition Header_ToBytes :: "Header \<Rightarrow> byte list" where
  "Header_ToBytes h =
     (let buf = replicate 12 0;
          buf = PutUint16 buf 0 (ID h);
          buf = buf[2 := push_bit 7 (QR h) OR push_bit 3 (OpCode h)
                         OR push_bit 2 (AuthorativeAnswer h) OR push_bit 1 (Truncation h)
                         OR RecursionDesired h];
          buf = buf[3 := push_bit 7 (RecursionAvailable h) OR push_bit 4 (Reserved h)
                         OR ResponseCode h];
          buf = PutUint16 buf 4 (QuestionCount h);
          buf = PutUint16 buf 6 (AnswerRecordCount h);
          buf = PutUint16 buf 8 (AuthorativeRecordCount h);
          buf = PutUint16 buf 10 (AdditionalRecordCount h)
      in buf)"

text \<open>\<open>strings.Split(s, ".")\<close> and \<open>strings.Join(labels, ".")\<close>; Go strings are byte
  sequences, as \<open>string\<close> is here.\<close>

fun Split :: "string \<Rightarrow> char \<Rightarrow> string list" where
  "Split [] sep = [[]]"
| "Split (c # cs) sep =
     (if c = sep then [] # Split cs sep
      else (case Split cs sep of [] \<Rightarrow> [[c]] | l # ls \<Rightarrow> (c # l) # ls))"

fun Join :: "string list \<Rightarrow> string \<Rightarrow> string" where
  "Join [] sep = []"
| "Join [l] sep = l"
| "Join (l # ls) sep = l @ sep @ Join ls sep"

definition byte_of_char :: "char \<Rightarrow> byte" where
  "byte_of_char c = of_char c"

definition char_of_byte :: "byte \<Rightarrow> char" where
  "char_of_byte b = char_of (unat b)"

definition bufsize_labels :: "string list \<Rightarrow> nat" where
  \<comment> \<open>\<open>for _, label := range labels { bufsize += len(label) + 1 }\<close>\<close>
  "bufsize_labels labels = fold (\<lambda>label bufsize. bufsize + (length label + 1)) labels 0"

definition put_labels :: "string list \<Rightarrow> byte list \<times> nat \<Rightarrow> byte list \<times> nat" where
  \<comment> \<open>the label-writing loop shared by both \<open>ToBytes\<close>, on the state \<open>(buf, copied)\<close>\<close>
  "put_labels labels st =
     fold (\<lambda>label (buf, copied).
             (copy_at (buf[copied := of_nat (length label)]) (copied + 1) (map byte_of_char label),
              copied + 1 + length label))
          labels st"

definition Question_ToBytes :: "Question \<Rightarrow> byte list" where
  "Question_ToBytes q =
     (let labels = Split (QName q) CHR ''.'';
          bufsize = bufsize_labels labels + 5;
          buf = replicate bufsize 0;
          (buf, copied) = put_labels labels (buf, 0);
          buf = buf[copied := 0];
          copied = copied + 1;
          buf = PutUint16 buf copied (QType q);
          buf = PutUint16 buf (copied + 2) (QClass q)
      in buf)"

definition Answer_ToBytes :: "Answer \<Rightarrow> byte list" where
  "Answer_ToBytes a =
     (let labels = Split (AName a) CHR ''.'';
          bufsize = bufsize_labels labels + (length (RData a) + 11);
          buf = replicate bufsize 0;
          (buf, copied) = put_labels labels (buf, 0);
          buf = buf[copied := 0];
          copied = copied + 1;
          buf = PutUint16 buf copied (AType a);
          buf = PutUint16 buf (copied + 2) (AClass a);
          buf = PutUint32 buf (copied + 4) (TTL a);
          buf = PutUint16 buf (copied + 8) (RDLength a);
          buf = copy_at buf (copied + 10) (RData a)
      in buf)"

section \<open>Decoders\<close>

definition Uint16_at :: "slice \<Rightarrow> nat \<Rightarrow> panic + uint16" where
  \<comment> \<open>\<open>binary.BigEndian.Uint16(buf[k:k+2])\<close>\<close>
  "Uint16_at buf k = bindP (reslice buf k (k + 2)) (\<lambda>b. Inr (Uint16 b))"

definition Uint32_at :: "slice \<Rightarrow> nat \<Rightarrow> panic + uint32" where
  \<comment> \<open>\<open>binary.BigEndian.Uint32(buf[k:k+4])\<close>\<close>
  "Uint32_at buf k = bindP (reslice buf k (k + 4)) (\<lambda>b. Inr (Uint32 b))"

definition parseHeader :: "slice \<Rightarrow> panic + Header" where
  "parseHeader buf =
     bindP (Uint16_at buf 0) (\<lambda>id.
     bindP (index buf 2) (\<lambda>b2.
     bindP (index buf 3) (\<lambda>b3.
     bindP (Uint16_at buf 4) (\<lambda>qd.
     bindP (Uint16_at buf 6) (\<lambda>an.
     bindP (Uint16_at buf 8) (\<lambda>ns.
     bindP (Uint16_at buf 10) (\<lambda>ar.
       Inr \<lparr>ID = id,
            QR = drop_bit 7 b2,
            OpCode = drop_bit 3 b2 AND 0x0F,
            AuthorativeAnswer = drop_bit 2 b2 AND 0x01,
            Truncation = drop_bit 1 b2 AND 0x01,
            RecursionDesired = b2 AND 0x01,
            RecursionAvailable = drop_bit 7 b3,
            Reserved = drop_bit 4 b3 AND 0x07,
            ResponseCode = b3 AND 0x0F,
            QuestionCount = qd,
            AnswerRecordCount = an,
            AuthorativeRecordCount = ns,
            AdditionalRecordCount = ar\<rparr>)))))))"


text \<open>
  \<open>parseLabels\<close>: the loop state is the cursor \<open>i\<close> and the labels read so far; a
  compression pointer makes a recursive call that starts over at the pointed-to offset.
  Nothing bounds that recursion, so the function is partial: \<open>None\<close> is a call that
  never returns, \<open>Some (Inl p)\<close> a run-time panic, \<open>Some (Inr (labels, next))\<close> a
  normal return.
\<close>

partial_function (option) parseLabels_loop ::
  "slice \<Rightarrow> nat \<Rightarrow> string list \<Rightarrow> (panic + string list \<times> nat) option" where
  "parseLabels_loop buf i labels =
     (case index buf i of
        Inl e \<Rightarrow> Some (Inl e)
      | Inr b \<Rightarrow>
          if b = 0 then Some (Inr (labels, i + 1))
          else
            let labelLength = unat b in
            if labelLength \<ge> 0xC0 then
              (case Uint16_at buf i of
                 Inl e \<Rightarrow> Some (Inl e)
               | Inr w \<Rightarrow>
                   let offset = unat (w AND 0x3FFF) in
                   Option.bind (parseLabels_loop buf offset [])
                     (\<lambda>r. case r of
                            Inl e \<Rightarrow> Some (Inl e)
                          | Inr (labels', _) \<Rightarrow> Some (Inr (labels @ labels', i + 2))))
            else
              (case reslice buf (i + 1) (i + 1 + labelLength) of
                 Inl e \<Rightarrow> Some (Inl e)
               | Inr bs \<Rightarrow>
                   parseLabels_loop buf (i + (labelLength + 1))
                     (labels @ [map char_of_byte bs])))"

definition parseLabels :: "slice \<Rightarrow> nat \<Rightarrow> (panic + string list \<times> nat) option" where
  "parseLabels buf start = parseLabels_loop buf start []"

definition parseQuestion :: "slice \<Rightarrow> nat \<Rightarrow> (panic + Question \<times> nat) option" where
  "parseQuestion buf start =
     (case parseLabels buf start of
        None \<Rightarrow> None
      | Some (Inl e) \<Rightarrow> Some (Inl e)
      | Some (Inr (labels, i)) \<Rightarrow>
          Some (bindP (Uint16_at buf i) (\<lambda>t.
                bindP (Uint16_at buf (i + 2)) (\<lambda>c.
                  Inr (\<lparr>QName = Join labels ''.'', QType = t, QClass = c\<rparr>, i + 4)))))"

definition parseAnswer :: "slice \<Rightarrow> nat \<Rightarrow> (panic + Answer) option" where
  "parseAnswer buf ansStart =
     (case parseLabels buf ansStart of
        None \<Rightarrow> None
      | Some (Inl e) \<Rightarrow> Some (Inl e)
      | Some (Inr (labels, i)) \<Rightarrow>
          Some (bindP (Uint16_at buf i) (\<lambda>t.
                bindP (Uint16_at buf (i + 2)) (\<lambda>c.
                bindP (Uint32_at buf (i + 4)) (\<lambda>ttl.
                bindP (Uint16_at buf (i + 8)) (\<lambda>rdlen.
                bindP (reslice buf (i + 10) (i + 10 + unat rdlen)) (\<lambda>rdata.
                  Inr \<lparr>AName = Join labels ''.'', AType = t, AClass = c, TTL = ttl,
                       RDLength = rdlen, RData = rdata\<rparr>)))))))"

text \<open>The two loops of \<open>parseRequest\<close>, by the number of iterations left. The answer
  loop calls \<open>parseAnswer\<close> with the same \<open>nextStart\<close> every time, as the source does.\<close>

fun parseQuestions ::
  "slice \<Rightarrow> nat \<Rightarrow> nat \<Rightarrow> Question list \<Rightarrow> (panic + Question list \<times> nat) option" where
  "parseQuestions request 0 nextStart questions = Some (Inr (questions, nextStart))"
| "parseQuestions request (Suc n) nextStart questions =
     (case parseQuestion request nextStart of
        None \<Rightarrow> None
      | Some (Inl e) \<Rightarrow> Some (Inl e)
      | Some (Inr (question, nextStart')) \<Rightarrow>
          parseQuestions request n nextStart' (questions @ [question]))"

fun parseAnswers ::
  "slice \<Rightarrow> nat \<Rightarrow> nat \<Rightarrow> Answer list \<Rightarrow> (panic + Answer list) option" where
  "parseAnswers request 0 nextStart answers = Some (Inr answers)"
| "parseAnswers request (Suc n) nextStart answers =
     (case parseAnswer request nextStart of
        None \<Rightarrow> None
      | Some (Inl e) \<Rightarrow> Some (Inl e)
      | Some (Inr answer) \<Rightarrow> parseAnswers request n nextStart (answers @ [answer]))"

type_synonym error = string

definition parseRequest :: "slice \<Rightarrow> (panic + Message \<times> error option) option" where
  "parseRequest request =
     (case parseHeader request of
        Inl e \<Rightarrow> Some (Inl e)
      | Inr header \<Rightarrow>
          (case parseQuestions request (unat (QuestionCount header)) 12 [] of
             None \<Rightarrow> None
           | Some (Inl e) \<Rightarrow> Some (Inl e)
           | Some (Inr (questions, nextStart)) \<Rightarrow>
               (case parseAnswers request (unat (AnswerRecordCount header)) nextStart [] of
                  None \<Rightarrow> None
                | Some (Inl e) \<Rightarrow> Some (Inl e)
                | Some (Inr answers) \<Rightarrow>
                    Some (Inr (\<lparr>MHeader = header, MQuestion = questions, MAnswer = answers,
                                Authority = 0, Additional = 0\<rparr>, None)))))"


section \<open>Forwarding resolver\<close>

text \<open>
  The network and the command line are the environment of \<open>handleConnection\<close>: the
  datagram read from the client (\<open>None\<close> when \<open>ReadFromUDP\<close> fails); what lines 233-248
  do with \<open>os.Args[1]\<close> (\<open>NoAddress\<close>: the argument is missing or has no colon, an
  index out of range; \<open>DialFailed\<close>: \<open>Atoi\<close> or \<open>DialUDP\<close> returns an error); for the
  \<open>k\<close>-th call of \<open>queryDNS\<close>, what \<open>udpConn.Write\<close> and \<open>udpConn.Read\<close> do; and
  whether the network lets \<open>WriteToUDP\<close> succeed.
\<close>

datatype roundtrip = WriteError | ReadError | Reply "byte list"

datatype dial = NoAddress | DialFailed | Connected

record env =
  inbound :: "byte list option"
  dial :: dial
  upstream :: "nat \<Rightarrow> roundtrip"
  client_ok :: bool

definition queryDNS :: "Message \<Rightarrow> roundtrip \<Rightarrow> panic + byte list \<times> slice option" where
  \<comment> \<open>returns the datagram handed to \<open>udpConn.Write\<close> and the reply slice \<open>buf[:n]\<close>,
      \<open>None\<close> when \<open>queryDNS\<close> returns an error\<close>
  "queryDNS msg net =
     (let buf = replicate (1024 * 10) 0;
          buf = copy_at buf 0 (Header_ToBytes (MHeader msg));
          copied = 12
      in case MQuestion msg of
           [] \<Rightarrow> Inl IndexOutOfRange
         | q # _ \<Rightarrow>
             let buf = copy_at buf copied (Question_ToBytes q);
                 copied = copied + length (Question_ToBytes q)
             in if copied > length buf then Inl SliceBoundsOutOfRange
                else
                  let written = take copied buf in
                  (case net of
                     WriteError \<Rightarrow> Inr (written, None)
                   | ReadError \<Rightarrow> Inr (written, None)
                   | Reply d \<Rightarrow>
                       let n = min (length d) (length buf);
                           buf = copy_at buf 0 (take n d)
                       in Inr (written, Some \<lparr>elems = take n buf, spare = drop n buf\<rparr>)))"

text \<open>
  The state of the loop over \<open>msg.Question\<close>. \<open>header := msg.Header\<close> copies a pointer,
  so the two assignments to \<open>header\<close> change the one \<open>Header\<close> object of the inbound
  message: \<open>hdr\<close> is that object. \<open>forwarded\<close> and \<open>replies\<close> record what was handed to
  \<open>udpConn.Write\<close> and what \<open>parseRequest\<close> returned for each reply.
\<close>

record relay =
  hdr :: Header
  questions :: "Question list"
  answers :: "Answer list"
  forwarded :: "byte list list"
  replies :: "Message list"

datatype exit = Completed | Returned | Panicked panic

fun forward_loop ::
  "(nat \<Rightarrow> roundtrip) \<Rightarrow> nat \<Rightarrow> Question list \<Rightarrow> relay \<Rightarrow> (relay \<times> exit) option" where
  "forward_loop net k [] st = Some (st, Completed)"
| "forward_loop net k (question # rest) st =
     (let header = (hdr st)\<lparr>QuestionCount := 1, AnswerRecordCount := 0\<rparr>;
          st = st\<lparr>hdr := header\<rparr>;
          req = \<lparr>MHeader = header, MQuestion = [question], MAnswer = [],
                 Authority = 0, Additional = 0\<rparr>
      in case queryDNS req (net k) of
           Inl p \<Rightarrow> Some (st, Panicked p)
         | Inr (written, r) \<Rightarrow>
             let st = st\<lparr>forwarded := forwarded st @ [written]\<rparr> in
             (case r of
                None \<Rightarrow> Some (st, Returned)
              | Some resp \<Rightarrow>
                  (case parseRequest resp of
                     None \<Rightarrow> None
                   | Some (Inl p) \<Rightarrow> Some (st, Panicked p)
                   | Some (Inr (respMsg, err)) \<Rightarrow>
                       (case err of
                          Some e \<Rightarrow> Some (st, Returned)
                        | None \<Rightarrow>
                            forward_loop net (k + 1) rest
                              (st\<lparr>questions := questions st @ MQuestion respMsg,
                                  answers := answers st @ MAnswer respMsg,
                                  replies := replies st @ [respMsg]\<rparr>)))))"

definition max_udp_payload :: nat where
  \<comment> \<open>the listening socket is bound to 127.0.0.1: a UDP datagram over IPv4 carries at most
      65535 - 20 - 8 bytes, and \<open>WriteToUDP\<close> returns an error for more\<close>
  "max_udp_payload = 65507"

text \<open>
  What one call of \<open>handleConnection\<close> did: how it ended, the datagrams it handed to the
  upstream connection, the upstream replies it decoded and, once the loop is through,
  the header and the accumulated questions and answers the reply is encoded from, the
  bytes handed to \<open>conn.WriteToUDP\<close> and whether \<open>WriteToUDP\<close> sent them.
\<close>

record outcome =
  exit :: exit
  sent_upstream :: "byte list list"
  upstream_replies :: "Message list"
  merged :: "Message option"
  response :: "byte list option"
  delivered :: bool

definition assemble :: "Header \<Rightarrow> Question list \<Rightarrow> Answer list \<Rightarrow> Header \<times> byte list" where
  \<comment> \<open>lines 275-293: the final value of \<open>msg.Header\<close> and the \<open>response\<close> bytes\<close>
  "assemble h qs ans =
     (let response = replicate 12 0;
          h = h\<lparr>QR := 1\<rparr>;
          h = h\<lparr>ResponseCode := 0\<rparr>;
          h = (if OpCode h \<noteq> 0 then h\<lparr>ResponseCode := 4\<rparr> else h);
          h = h\<lparr>QuestionCount := of_nat (length qs)\<rparr>;
          h = h\<lparr>AnswerRecordCount := of_nat (length ans)\<rparr>;
          response = copy_at response 0 (Header_ToBytes h);
          response = fold (\<lambda>question response. response @ Question_ToBytes question)
                       qs response;
          response = fold (\<lambda>answer response. response @ Answer_ToBytes answer)
                       ans response
      in (h, response))"

definition stopped :: "exit \<Rightarrow> byte list list \<Rightarrow> Message list \<Rightarrow> outcome" where
  \<comment> \<open>\<open>handleConnection\<close> ends without reaching \<open>conn.WriteToUDP\<close>\<close>
  "stopped ex sent rs =
     \<lparr>exit = ex, sent_upstream = sent, upstream_replies = rs,
      merged = None, response = None, delivered = False\<rparr>"

definition handleConnection :: "env \<Rightarrow> outcome option" where
  "handleConnection e =
     (case inbound e of
        None \<Rightarrow> Some (stopped Returned [] [])
      | Some d \<Rightarrow>
          let buf = copy_at (replicate 2048 0) 0 d in
          (case parseRequest (full buf) of
             None \<Rightarrow> None
           | Some (Inl p) \<Rightarrow> Some (stopped (Panicked p) [] [])
           | Some (Inr (msg, err)) \<Rightarrow>
               (case err of
                  Some x \<Rightarrow> Some (stopped Returned [] [])
                | None \<Rightarrow>
                    (case dial e of
                       NoAddress \<Rightarrow> Some (stopped (Panicked IndexOutOfRange) [] [])
                     | DialFailed \<Rightarrow> Some (stopped Returned [] [])
                     | Connected \<Rightarrow>
                         (case forward_loop (upstream e) 0 (MQuestion msg)
                                 \<lparr>hdr = MHeader msg, questions = [], answers = [],
                                  forwarded = [], replies = []\<rparr> of
                            None \<Rightarrow> None
                          | Some (st, Completed) \<Rightarrow>
                              let (h, bytes) = assemble (hdr st) (questions st) (answers st)
                              in Some \<lparr>exit = Completed, sent_upstream = forwarded st,
                                       upstream_replies = replies st,
                                       merged = Some \<lparr>MHeader = h, MQuestion = questions st,
                                                       MAnswer = answers st, Authority = 0,
                                                       Additional = 0\<rparr>,
                                       response = Some bytes,
                                       delivered =
                                         (client_ok e \<and> length bytes \<le> max_udp_payload)\<rparr>
                          | Some (st, ex) \<Rightarrow>
                              Some (stopped ex (forwarded st) (replies st)))))))"


section \<open>Notions used to state the properties\<close>

text \<open>Big-endian byte strings, the two flag bytes of the header, the wire form of a label
  list, the target of a compression pointer, and well-formedness of the three records.\<close>

definition be16 :: "uint16 \<Rightarrow> byte list" where
  "be16 v = [ucast (drop_bit 8 v), ucast v]"

definition be32 :: "uint32 \<Rightarrow> byte list" where
  "be32 v = [ucast (drop_bit 24 v), ucast (drop_bit 16 v), ucast (drop_bit 8 v), ucast v]"

definition flags2 :: "Header \<Rightarrow> byte" where
  "flags2 h = push_bit 7 (QR h) OR push_bit 3 (OpCode h) OR push_bit 2 (AuthorativeAnswer h)
                OR push_bit 1 (Truncation h) OR RecursionDesired h"

definition flags3 :: "Header \<Rightarrow> byte" where
  "flags3 h = push_bit 7 (RecursionAvailable h) OR push_bit 4 (Reserved h) OR ResponseCode h"

definition pack2 :: "byte \<Rightarrow> byte \<Rightarrow> byte \<Rightarrow> byte \<Rightarrow> byte \<Rightarrow> byte" where
  "pack2 qr opc aa tc rd = push_bit 7 qr OR push_bit 3 opc OR push_bit 2 aa OR push_bit 1 tc OR rd"

definition pack3 :: "byte \<Rightarrow> byte \<Rightarrow> byte \<Rightarrow> byte" where
  "pack3 ra z rc = push_bit 7 ra OR push_bit 4 z OR rc"

definition enc_labels :: "string list \<Rightarrow> byte list" where
  "enc_labels labels = concat (map (\<lambda>l. of_nat (length l) # map byte_of_char l) labels)"

definition pointer_offset :: "slice \<Rightarrow> nat \<Rightarrow> nat" where
  "pointer_offset buf i = unat (Uint16 (take 2 (drop i (backing buf))) AND 0x3FFF)"

definition wf_header :: "Header \<Rightarrow> bool" where
  "wf_header h \<longleftrightarrow>
     QR h < 2 \<and> OpCode h < 16 \<and> AuthorativeAnswer h < 2 \<and> Truncation h < 2 \<and>
     RecursionDesired h < 2 \<and> RecursionAvailable h < 2 \<and> Reserved h < 8 \<and> ResponseCode h < 16"

definition wf_name :: "string \<Rightarrow> bool" where
  "wf_name name = list_all (\<lambda>l. 1 \<le> length l \<and> length l \<le> 63) (Split name CHR ''.'')"

definition wf_question :: "Question \<Rightarrow> bool" where
  "wf_question q = wf_name (QName q)"

definition wf_answer :: "Answer \<Rightarrow> bool" where
  "wf_answer a \<longleftrightarrow> wf_name (AName a) \<and> length (RData a) = unat (RDLength a)"

text \<open>Well-formedness as the specification's data model words it: every label has 1 to
  63 bytes, and the empty name, the root, is a name too.\<close>

definition spec_wf_name :: "string \<Rightarrow> bool" where
  "spec_wf_name name \<longleftrightarrow> name = [] \<or> wf_name name"

definition spec_wf_question :: "Question \<Rightarrow> bool" where
  "spec_wf_question q = spec_wf_name (QName q)"

definition spec_wf_answer :: "Answer \<Rightarrow> bool" where
  "spec_wf_answer a \<longleftrightarrow> spec_wf_name (AName a) \<and> length (RData a) = unat (RDLength a)"

text \<open>
  \<open>first_pointer buf i\<close> follows the label loop of \<open>parseLabels\<close> from cursor \<open>i\<close> and
  gives the target of the compression pointer the loop runs into, if it runs into one
  whose two bytes can be read. \<open>pointers_backward buf start\<close> holds when every pointer
  followed in decoding the name at \<open>start\<close> targets an offset strictly below the start of
  the label sequence it ends.
\<close>

function first_pointer :: "slice \<Rightarrow> nat \<Rightarrow> nat option" where
  "first_pointer buf i =
     (if i < slen buf \<and> elems buf ! i \<noteq> 0 then
        (if 192 \<le> unat (elems buf ! i) then
           (if i + 2 \<le> scap buf then Some (pointer_offset buf i) else None)
         else if i + 1 + unat (elems buf ! i) \<le> scap buf then
           first_pointer buf (i + (unat (elems buf ! i) + 1))
         else None)
      else None)"
  by pat_completeness auto
termination
  by (relation "measure (\<lambda>(buf, i). slen buf - i)") auto

function pointers_backward :: "slice \<Rightarrow> nat \<Rightarrow> bool" where
  "pointers_backward buf start =
     (case first_pointer buf start of
        None \<Rightarrow> True
      | Some off \<Rightarrow> if off < start then pointers_backward buf off else False)"
  by pat_completeness auto
termination
  by (relation "measure (\<lambda>(buf, start). start)") auto

declare first_pointer.simps [simp del]

declare pointers_backward.simps [simp del]

text \<open>The name encoder as the specification words it: every non-empty label as a length
  byte and its bytes, then a zero byte.\<close>

definition spec_encodeName :: "string \<Rightarrow> byte list" where
  "spec_encodeName name =
     concat (map (\<lambda>l. of_nat (length l) # map byte_of_char l)
               (filter (\<lambda>l. l \<noteq> []) (Split name CHR ''.''))) @ [0]"

text \<open>
  For the resolver: the message \<open>handleConnection\<close> decodes from the client's datagram
  (read into a zeroed buffer of 2048 bytes), the request it forwards for one question,
  and the header of the reply it assembles from \<open>nq\<close> questions and \<open>na\<close> answers.
\<close>

definition inbound_message :: "env \<Rightarrow> Message option" where
  "inbound_message e =
     (case inbound e of
        None \<Rightarrow> None
      | Some d \<Rightarrow>
          (case parseRequest (full (copy_at (replicate 2048 0) 0 d)) of
             Some (Inr (msg, err)) \<Rightarrow> Some msg
           | _ \<Rightarrow> None))"

definition forwarded_request :: "Header \<Rightarrow> Question \<Rightarrow> byte list" where
  "forwarded_request h q =
     Header_ToBytes (h\<lparr>QuestionCount := 1, AnswerRecordCount := 0\<rparr>) @ Question_ToBytes q"

definition reply_header :: "Header \<Rightarrow> nat \<Rightarrow> nat \<Rightarrow> Header" where
  "reply_header h nq na =
     h\<lparr>QR := 1, ResponseCode := (if OpCode h \<noteq> 0 then 4 else 0),
       QuestionCount := of_nat nq, AnswerRecordCount := of_nat na\<rparr>"

text \<open>
  A run used to instantiate the resolver properties: a query for \<open>example.com\<close>, type A,
  class IN, with opcode \<open>opc\<close>, answered upstream with one address record.
\<close>

definition example_header :: "byte \<Rightarrow> Header" where
  "example_header opc =
     \<lparr>ID = 0x1234, QR = 0, OpCode = opc, AuthorativeAnswer = 0, Truncation = 0,
      RecursionDesired = 1, RecursionAvailable = 0, Reserved = 0, ResponseCode = 0,
      QuestionCount = 1, AnswerRecordCount = 0, AuthorativeRecordCount = 0,
      AdditionalRecordCount = 0\<rparr>"

definition example_question :: Question where
  "example_question = \<lparr>QName = ''example.com'', QType = 1, QClass = 1\<rparr>"

definition example_answer :: Answer where
  "example_answer = \<lparr>AName = ''example.com'', AType = 1, AClass = 1, TTL = 300, RDLength = 4,
                       RData = [93, 184, 216, 34]\<rparr>"

definition example_query :: "byte \<Rightarrow> Message" where
  "example_query opc =
     \<lparr>MHeader = example_header opc, MQuestion = [example_question], MAnswer = [],
      Authority = 0, Additional = 0\<rparr>"

definition example_upstream_reply :: "byte \<Rightarrow> Message" where
  "example_upstream_reply opc =
     \<lparr>MHeader = (example_header opc)\<lparr>QR := 1, RecursionAvailable := 1, AnswerRecordCount := 1\<rparr>,
      MQuestion = [example_question], MAnswer = [example_answer],
      Authority = 0, Additional = 0\<rparr>"

definition example_env :: "byte \<Rightarrow> env" where
  "example_env opc =
     \<lparr>inbound = Some (Header_ToBytes (example_header opc) @ Question_ToBytes example_question),
      dial = Connected,
      upstream = (\<lambda>k. Reply (Header_ToBytes (MHeader (example_upstream_reply opc))
                              @ Question_ToBytes example_question
                              @ Answer_ToBytes example_answer)),
      client_ok = True\<rparr>"

definition example_merged :: "byte \<Rightarrow> Message" where
  "example_merged opc =
     \<lparr>MHeader = reply_header (example_header opc) 1 1, MQuestion = [example_question],
      MAnswer = [example_answer], Authority = 0, Additional = 0\<rparr>"

definition example_response :: "byte \<Rightarrow> byte list" where
  "example_response opc =
     Header_ToBytes (reply_header (example_header opc) 1 1) @ Question_ToBytes example_question
       @ Answer_ToBytes example_answer"

definition example_outcome :: "byte \<Rightarrow> outcome" where
  "example_outcome opc =
     \<lparr>exit = Completed,
      sent_upstream = [Header_ToBytes ((example_header opc)\<lparr>QuestionCount := 1,
                         AnswerRecordCount := 0\<rparr>) @ Question_ToBytes example_question],
      upstream_replies = [example_upstream_reply opc],
      merged = Some (example_merged opc),
      response = Some (example_response opc),
      delivered = True\<rparr>"

section \<open>Bytes and bits\<close>

lemma Header_ToBytes_eq:
  "Header_ToBytes h =
     be16 (ID h) @ [flags2 h, flags3 h] @ be16 (QuestionCount h) @ be16 (AnswerRecordCount h)
       @ be16 (AuthorativeRecordCount h) @ be16 (AdditionalRecordCount h)"
  by (simp add: Header_ToBytes_def PutUint16_def be16_def flags2_def flags3_def Let_def
        eval_nat_numeral)

lemma length_Header_ToBytes [simp]: "length (Header_ToBytes h) = 12"
  by (simp add: Header_ToBytes_eq be16_def)

lemma Uint16_be16: "Uint16 (be16 v) = v"
  unfolding Uint16_def be16_def
  by (rule bit_word_eqI) (auto simp add: bit_simps)

lemma Uint32_be32: "Uint32 (be32 v) = v"
  unfolding Uint32_def be32_def
proof (rule bit_word_eqI)
  fix n assume "n < LENGTH(32)"
  then consider "n < 8" | "8 \<le> n" "n < 16" | "16 \<le> n" "n < 24" | "24 \<le> n" "n < 32"
    by fastforce
  then show "bit (ucast ([ucast (drop_bit 24 v), ucast (drop_bit 16 v), ucast (drop_bit 8 v), ucast v :: byte] ! 3) OR
              push_bit 8 (ucast ([ucast (drop_bit 24 v), ucast (drop_bit 16 v), ucast (drop_bit 8 v), ucast v :: byte] ! 2)) OR
              push_bit 16 (ucast ([ucast (drop_bit 24 v), ucast (drop_bit 16 v), ucast (drop_bit 8 v), ucast v :: byte] ! 1)) OR
              push_bit 24 (ucast ([ucast (drop_bit 24 v), ucast (drop_bit 16 v), ucast (drop_bit 8 v), ucast v :: byte] ! 0)) :: uint32) n = bit v n"
    by cases (auto simp add: bit_simps)
qed

lemma bit_shift1: "bit (a mod 2 * 2 :: byte) n \<longleftrightarrow> n = 1 \<and> odd a"
proof -
  have "a mod 2 * 2 = push_bit 1 (take_bit 1 a)" by simp
  also have "bit \<dots> n \<longleftrightarrow> n = 1 \<and> odd a"
    by (simp only: bit_push_bit_iff bit_take_bit_iff) (auto simp: possible_bit_word bit_0)
  finally show ?thesis .
qed

lemma lt_take: "(x::byte) < 2 ^ k \<Longrightarrow> take_bit k x = x"
  by (metis less_mask_eq take_bit_eq_mask)

lemma m15: "(0x0F::byte) = mask 4"
  by (simp add: mask_eq_exp_minus_1)

lemma m7: "(0x07::byte) = mask 3"
  by (simp add: mask_eq_exp_minus_1)

lemma m1: "(0x01::byte) = mask 1"
  by (simp add: mask_eq_exp_minus_1)

lemma unpack2:
  fixes qr opc aa tc rd :: byte
  defines "p \<equiv> pack2 (take_bit 1 qr) (take_bit 4 opc) (take_bit 1 aa) (take_bit 1 tc) (take_bit 1 rd)"
  shows "drop_bit 7 p = take_bit 1 qr"
    and "drop_bit 3 p AND mask 4 = take_bit 4 opc"
    and "drop_bit 2 p AND mask 1 = take_bit 1 aa"
    and "drop_bit 1 p AND mask 1 = take_bit 1 tc"
    and "p AND mask 1 = take_bit 1 rd"
  unfolding p_def pack2_def
  by (rule bit_word_eqI; auto simp add: bit_simps bit_shift1)+

lemma unpack3:
  fixes ra z rc :: byte
  defines "p \<equiv> pack3 (take_bit 1 ra) (take_bit 3 z) (take_bit 4 rc)"
  shows "drop_bit 7 p = take_bit 1 ra"
    and "drop_bit 4 p AND mask 3 = take_bit 3 z"
    and "p AND mask 4 = take_bit 4 rc"
  unfolding p_def pack3_def
  by (rule bit_word_eqI; auto simp add: bit_simps)+

lemma enc_labels_simps [simp]:
  "enc_labels [] = []"
  "enc_labels (l # ls) = of_nat (length l) # map byte_of_char l @ enc_labels ls"
  by (simp_all add: enc_labels_def)

lemma enc_labels_append [simp]: "enc_labels (xs @ ys) = enc_labels xs @ enc_labels ys"
  by (simp add: enc_labels_def)

lemma fold_bufsize: "fold (\<lambda>label bufsize. bufsize + (length label + 1)) ls n = n + length (enc_labels ls)"
  by (induction ls arbitrary: n) simp_all

lemma bufsize_labels_eq: "bufsize_labels ls = length (enc_labels ls)"
  using fold_bufsize [of ls 0] by (simp add: bufsize_labels_def)

lemma copy_at_append:
  "length pre = k \<Longrightarrow> length src \<le> length post \<Longrightarrow>
   copy_at (pre @ post) k src = pre @ src @ drop (length src) post"
  by (simp add: copy_at_def)

lemma put_labels_Nil [simp]: "put_labels [] st = st"
  by (simp add: put_labels_def)

lemma put_labels_Cons:
  "put_labels (l # ls) (buf, copied) =
     put_labels ls (copy_at (buf[copied := of_nat (length l)]) (copied + 1) (map byte_of_char l),
                    copied + 1 + length l)"
  by (simp add: put_labels_def)

lemma put_labels_zeros:
  "length (enc_labels ls) \<le> n \<Longrightarrow>
   put_labels ls (pre @ replicate n 0, length pre) =
     (pre @ enc_labels ls @ replicate (n - length (enc_labels ls)) 0,
      length pre + length (enc_labels ls))"
proof (induction ls arbitrary: pre n)
  case Nil
  then show ?case by simp
next
  case (Cons l ls)
  let ?x = "of_nat (length l) :: byte"
  let ?src = "map byte_of_char l"
  from Cons.prems obtain m where n: "n = Suc (length l + m)" and m: "length (enc_labels ls) \<le> m"
    by (cases n) (auto simp: le_iff_add)
  have upd: "(pre @ replicate n 0)[length pre := ?x] = (pre @ [?x]) @ replicate (length l + m) 0"
    by (simp add: n list_update_append)
  have cp: "copy_at ((pre @ [?x]) @ replicate (length l + m) 0) (length pre + 1) ?src
              = (pre @ [?x] @ ?src) @ replicate m 0"
    by (subst copy_at_append) simp_all
  have "put_labels (l # ls) (pre @ replicate n 0, length pre) =
          put_labels ls ((pre @ [?x] @ ?src) @ replicate m 0, length (pre @ [?x] @ ?src))"
    by (simp only: put_labels_Cons upd cp) simp
  also have "\<dots> = ((pre @ [?x] @ ?src) @ enc_labels ls @ replicate (m - length (enc_labels ls)) 0,
                     length (pre @ [?x] @ ?src) + length (enc_labels ls))"
    by (rule Cons.IH [OF m])
  finally show ?case by (simp add: n)
qed

lemma Question_ToBytes_eq:
  "Question_ToBytes q =
     enc_labels (Split (QName q) CHR ''.'') @ [0] @ be16 (QType q) @ be16 (QClass q)"
proof -
  let ?ls = "Split (QName q) CHR ''.''"
  have "put_labels ?ls (replicate (length (enc_labels ?ls) + 5) 0, 0) =
          (enc_labels ?ls @ replicate 5 0, length (enc_labels ?ls))"
    using put_labels_zeros [of ?ls "length (enc_labels ?ls) + 5" "[]"] by simp
  then show ?thesis
    by (simp add: Question_ToBytes_def bufsize_labels_eq Let_def PutUint16_def be16_def
          list_update_append eval_nat_numeral)
qed

lemma Answer_ToBytes_eq:
  "Answer_ToBytes a =
     enc_labels (Split (AName a) CHR ''.'') @ [0] @ be16 (AType a) @ be16 (AClass a)
       @ be32 (TTL a) @ be16 (RDLength a) @ RData a"
proof -
  let ?ls = "Split (AName a) CHR ''.''"
  let ?n = "length (RData a)"
  have "put_labels ?ls (replicate (length (enc_labels ?ls) + (?n + 11)) 0, 0) =
          (enc_labels ?ls @ replicate (?n + 11) 0, length (enc_labels ?ls))"
    using put_labels_zeros [of ?ls "length (enc_labels ?ls) + (?n + 11)" "[]"] by simp
  moreover have "replicate (?n + 11) (0::byte) = replicate 11 0 @ replicate ?n 0"
    by (simp add: replicate_add [symmetric] add.commute)
  ultimately show ?thesis
    by (simp add: Answer_ToBytes_def bufsize_labels_eq Let_def PutUint16_def PutUint32_def
          be16_def be32_def list_update_append eval_nat_numeral copy_at_def)
qed

lemma Split_not_Nil [simp]: "Split s c \<noteq> []"
  by (induction s) (auto split: list.splits)

lemma Join_Cons_char: "Join ((c # l) # ls) sep = c # Join (l # ls) sep"
  by (cases ls) simp_all

lemma Join_Nil_Cons: "ls \<noteq> [] \<Longrightarrow> Join ([] # ls) sep = sep @ Join ls sep"
  by (cases ls) simp_all

lemma Join_Split: "Join (Split s c) [c] = s"
proof (induction s)
  case Nil
  show ?case by simp
next
  case (Cons a s)
  show ?case
  proof (cases "a = c")
    case True
    then show ?thesis using Cons.IH by (simp add: Join_Nil_Cons)
  next
    case False
    obtain l ls where sp: "Split s c = l # ls" by (cases "Split s c") auto
    with False Cons.IH show ?thesis by (simp add: Join_Cons_char)
  qed
qed

lemma char_of_byte_of_char [simp]: "char_of_byte (byte_of_char c) = c"
proof -
  have "(of_char c :: byte) = of_nat (of_char c)" by (simp add: of_nat_of_char)
  then have "unat (of_char c :: byte) = of_char c mod 256" by (simp add: unat_of_nat)
  then show ?thesis by (simp add: char_of_byte_def byte_of_char_def)
qed

lemma map_char_of_byte_of_char [simp]: "map char_of_byte (map byte_of_char l) = l"
  by (induction l) simp_all

lemma map_comp_char_of_byte_of_char [simp]: "map (char_of_byte \<circ> byte_of_char) l = l"
  by (induction l) simp_all

text \<open>One iteration of the loop of \<open>parseLabels\<close>, case by case.\<close>

lemma parseLabels_loop_index_panic:
  "\<not> i < slen buf \<Longrightarrow> parseLabels_loop buf i labels = Some (Inl IndexOutOfRange)"
  by (subst parseLabels_loop.simps) (simp add: index_def)

lemma parseLabels_loop_zero:
  "i < slen buf \<Longrightarrow> elems buf ! i = 0 \<Longrightarrow>
   parseLabels_loop buf i labels = Some (Inr (labels, i + 1))"
  by (subst parseLabels_loop.simps) (simp add: index_def)

lemma parseLabels_loop_label:
  "i < slen buf \<Longrightarrow> elems buf ! i \<noteq> 0 \<Longrightarrow> unat (elems buf ! i) < 192 \<Longrightarrow>
   i + 1 + unat (elems buf ! i) \<le> scap buf \<Longrightarrow>
   parseLabels_loop buf i labels =
     parseLabels_loop buf (i + (unat (elems buf ! i) + 1))
       (labels @ [map char_of_byte (take (unat (elems buf ! i)) (drop (i + 1) (backing buf)))])"
  by (subst parseLabels_loop.simps) (simp add: index_def reslice_def Let_def)

lemma parseLabels_loop_label_panic:
  "i < slen buf \<Longrightarrow> elems buf ! i \<noteq> 0 \<Longrightarrow> unat (elems buf ! i) < 192 \<Longrightarrow>
   scap buf < i + 1 + unat (elems buf ! i) \<Longrightarrow>
   parseLabels_loop buf i labels = Some (Inl SliceBoundsOutOfRange)"
  by (subst parseLabels_loop.simps) (simp add: index_def reslice_def Let_def)

lemma parseLabels_loop_pointer_panic:
  "i < slen buf \<Longrightarrow> 192 \<le> unat (elems buf ! i) \<Longrightarrow> scap buf < i + 2 \<Longrightarrow>
   parseLabels_loop buf i labels = Some (Inl SliceBoundsOutOfRange)"
  by (subst parseLabels_loop.simps)
     (auto simp add: index_def reslice_def Let_def Uint16_at_def bindP_def)

lemma parseLabels_loop_pointer:
  "i < slen buf \<Longrightarrow> 192 \<le> unat (elems buf ! i) \<Longrightarrow> i + 2 \<le> scap buf \<Longrightarrow>
   parseLabels_loop buf i labels =
     (case parseLabels buf (pointer_offset buf i) of
        None \<Rightarrow> None
      | Some (Inl e) \<Rightarrow> Some (Inl e)
      | Some (Inr (labels', next)) \<Rightarrow> Some (Inr (labels @ labels', i + 2)))"
  by (subst parseLabels_loop.simps)
     (auto simp add: index_def reslice_def Let_def Uint16_at_def bindP_def parseLabels_def
        pointer_offset_def split: option.splits sum.splits)

lemma unat_of_nat_byte: "n < 256 \<Longrightarrow> unat (of_nat n :: byte) = n"
  by (simp add: unat_of_nat)

lemma parseLabels_loop_enc:
  assumes "list_all (\<lambda>l. 1 \<le> length l \<and> length l < 192) ls"
  shows "parseLabels_loop \<lparr>elems = pre @ enc_labels ls @ 0 # rest, spare = sp\<rparr> (length pre) acc =
           Some (Inr (acc @ ls, length pre + length (enc_labels ls) + 1))"
  using assms
proof (induction ls arbitrary: pre acc)
  case Nil
  show ?case by (subst parseLabels_loop_zero) (simp_all add: slen_def)
next
  case (Cons l ls)
  let ?buf = "\<lparr>elems = pre @ enc_labels (l # ls) @ 0 # rest, spare = sp\<rparr>"
  let ?x = "of_nat (length l) :: byte"
  from Cons.prems have len: "1 \<le> length l" "length l < 192" and rest: "list_all (\<lambda>l. 1 \<le> length l \<and> length l < 192) ls"
    by simp_all
  have ux: "unat ?x = length l" using len by (simp add: unat_of_nat_byte)
  have at: "elems ?buf ! length pre = ?x" by simp
  have nz: "?x \<noteq> 0" using ux len by (metis not_one_le_zero unat_0)
  have step: "parseLabels_loop ?buf (length pre) acc =
     parseLabels_loop ?buf (length pre + (length l + 1))
       (acc @ [map char_of_byte (take (length l) (drop (length pre + 1) (backing ?buf)))])"
    using parseLabels_loop_label [of "length pre" ?buf acc] len nz
    by (simp add: ux slen_def scap_def)
  have lbl: "map char_of_byte (take (length l) (drop (length pre + 1) (backing ?buf))) = l"
    by (simp add: backing_def comp_def)
  have buf: "?buf = \<lparr>elems = (pre @ ?x # map byte_of_char l) @ enc_labels ls @ 0 # rest, spare = sp\<rparr>"
    by simp
  have "parseLabels_loop ?buf (length (pre @ ?x # map byte_of_char l)) (acc @ [l]) =
          Some (Inr ((acc @ [l]) @ ls, length (pre @ ?x # map byte_of_char l) + length (enc_labels ls) + 1))"
    unfolding buf by (rule Cons.IH [OF rest])
  then show ?case unfolding step lbl by (simp add: add.assoc)
qed

section \<open>Bounds checks\<close>

lemma Uint16_at_Inl_iff: "(\<exists>p. Uint16_at buf k = Inl p) \<longleftrightarrow> scap buf < k + 2"
  by (auto simp add: Uint16_at_def reslice_def bindP_def)

lemma Uint16_at_cases:
  "Uint16_at buf k = (if k + 2 \<le> scap buf then Inr (Uint16 (take 2 (drop k (backing buf))))
                      else Inl SliceBoundsOutOfRange)"
  by (simp add: Uint16_at_def reslice_def bindP_def)

lemma Uint32_at_cases:
  "Uint32_at buf k = (if k + 4 \<le> scap buf then Inr (Uint32 (take 4 (drop k (backing buf))))
                      else Inl SliceBoundsOutOfRange)"
  by (simp add: Uint32_at_def reslice_def bindP_def)

lemma slen_le_scap: "slen buf \<le> scap buf"
  by (simp add: slen_def scap_def)

lemma parseHeader_panics_iff:
  "(\<exists>p. parseHeader buf = Inl p) \<longleftrightarrow> scap buf < 12 \<or> slen buf < 4"
  using slen_le_scap [of buf]
  by (auto simp add: parseHeader_def Uint16_at_cases index_def bindP_def)

lemma parseAnswer_rdata_panic:
  assumes "parseLabels buf start = Some (Inr (ls, j))"
    and "Uint16_at buf (j + 8) = Inr n" and "scap buf < j + 10 + unat n"
  shows "parseAnswer buf start = Some (Inl SliceBoundsOutOfRange)"
proof -
  from assms(2) have c: "j + 10 \<le> scap buf"
    by (simp add: Uint16_at_cases split: if_splits)
  with assms show ?thesis
    by (simp add: parseAnswer_def Uint16_at_cases Uint32_at_cases reslice_def bindP_def)
qed

section \<open>Decoding what was encoded\<close>

lemma wf_name_labels:
  "wf_name n \<Longrightarrow> list_all (\<lambda>l. 1 \<le> length l \<and> length l < 192) (Split n CHR ''.'')"
  unfolding wf_name_def by (induction "Split n CHR ''.''") (auto simp: list_all_iff)

lemma Uint16_at_elems:
  "elems s = pre @ be16 v @ post \<Longrightarrow> Uint16_at s (length pre) = Inr v"
  by (simp add: Uint16_at_cases scap_def backing_def be16_def Uint16_be16 [unfolded be16_def])

lemma Uint32_at_elems:
  "elems s = pre @ be32 v @ post \<Longrightarrow> Uint32_at s (length pre) = Inr v"
  by (simp add: Uint32_at_cases scap_def backing_def be32_def Uint32_be32 [unfolded be32_def])

lemma parseLabels_elems:
  assumes "list_all (\<lambda>l. 1 \<le> length l \<and> length l < 192) ls"
    and "elems s = pre @ enc_labels ls @ 0 # rest"
  shows "parseLabels s (length pre) = Some (Inr (ls, length pre + length (enc_labels ls) + 1))"
proof -
  have "s = \<lparr>elems = pre @ enc_labels ls @ 0 # rest, spare = spare s\<rparr>"
    using assms(2) by (cases s) simp
  then show ?thesis
    using parseLabels_loop_enc [OF assms(1), of pre rest "spare s" "[]"]
    by (simp add: parseLabels_def)
qed

lemma parseHeader_elems:
  assumes "wf_header h" and "elems s = Header_ToBytes h @ rest"
  shows "parseHeader s = Inr h"
proof -
  from assms(1) have t:
    "take_bit 1 (QR h) = QR h" "take_bit 4 (OpCode h) = OpCode h"
    "take_bit 1 (AuthorativeAnswer h) = AuthorativeAnswer h"
    "take_bit 1 (Truncation h) = Truncation h"
    "take_bit 1 (RecursionDesired h) = RecursionDesired h"
    "take_bit 1 (RecursionAvailable h) = RecursionAvailable h"
    "take_bit 3 (Reserved h) = Reserved h"
    "take_bit 4 (ResponseCode h) = ResponseCode h"
    using lt_take [of _ 1] lt_take [of _ 3] lt_take [of _ 4] by (simp_all add: wf_header_def)
  have u2: "drop_bit 7 (flags2 h) = QR h" "drop_bit 3 (flags2 h) AND 0x0F = OpCode h"
    "drop_bit 2 (flags2 h) AND 0x01 = AuthorativeAnswer h"
    "drop_bit 1 (flags2 h) AND 0x01 = Truncation h" "flags2 h AND 0x01 = RecursionDesired h"
    using unpack2 [of "QR h" "OpCode h" "AuthorativeAnswer h" "Truncation h" "RecursionDesired h"]
    unfolding t m15 m1 flags2_def pack2_def by blast+
  have u3: "drop_bit 7 (flags3 h) = RecursionAvailable h"
    "drop_bit 4 (flags3 h) AND 0x07 = Reserved h" "flags3 h AND 0x0F = ResponseCode h"
    using unpack3 [of "RecursionAvailable h" "Reserved h" "ResponseCode h"]
    unfolding t m15 m7 flags3_def pack3_def by blast+
  have e: "elems s = be16 (ID h) @ [flags2 h, flags3 h] @ be16 (QuestionCount h)
             @ be16 (AnswerRecordCount h) @ be16 (AuthorativeRecordCount h)
             @ be16 (AdditionalRecordCount h) @ rest"
    using assms(2) by (simp add: Header_ToBytes_eq)
  have r: "Uint16_at s 0 = Inr (ID h)" "Uint16_at s 4 = Inr (QuestionCount h)"
    "Uint16_at s 6 = Inr (AnswerRecordCount h)"
    "Uint16_at s 8 = Inr (AuthorativeRecordCount h)"
    "Uint16_at s 10 = Inr (AdditionalRecordCount h)"
    "index s 2 = Inr (flags2 h)" "index s 3 = Inr (flags3 h)"
    by (simp_all add: Uint16_at_cases index_def slen_def scap_def backing_def e be16_def
          Uint16_be16 [unfolded be16_def])
  show ?thesis
    unfolding parseHeader_def
    by (simp only: r bindP_def sum.case u2 u3) simp
qed

lemma parseQuestion_elems:
  assumes "wf_question q" and "elems s = pre @ Question_ToBytes q @ rest"
  shows "parseQuestion s (length pre) = Some (Inr (q, length pre + length (Question_ToBytes q)))"
proof -
  let ?ls = "Split (QName q) CHR ''.''"
  let ?p = "pre @ enc_labels ?ls @ [0]"
  have e: "elems s = pre @ enc_labels ?ls @ 0 # (be16 (QType q) @ be16 (QClass q) @ rest)"
    using assms(2) by (simp add: Question_ToBytes_eq)
  have pl: "parseLabels s (length pre) = Some (Inr (?ls, length ?p))"
    using parseLabels_elems [OF wf_name_labels e] assms(1) by (simp add: wf_question_def)
  have t: "Uint16_at s (length ?p) = Inr (QType q)"
    by (rule Uint16_at_elems [where post = "be16 (QClass q) @ rest"]) (simp add: e)
  have c: "Uint16_at s (length (?p @ be16 (QType q))) = Inr (QClass q)"
    by (rule Uint16_at_elems [where post = rest]) (simp add: e)
  have "length (?p @ be16 (QType q)) = length ?p + 2" by (simp add: be16_def)
  with c have c': "Uint16_at s (length ?p + 2) = Inr (QClass q)" by simp
  show ?thesis
    using pl t c'
    by (simp add: Question_ToBytes_eq parseQuestion_def bindP_def Join_Split be16_def)
qed

lemma parseAnswer_elems:
  assumes "wf_answer a" and "elems s = pre @ Answer_ToBytes a @ rest"
  shows "parseAnswer s (length pre) = Some (Inr a)"
proof -
  let ?ls = "Split (AName a) CHR ''.''"
  let ?p = "pre @ enc_labels ?ls @ [0]"
  have rd: "length (RData a) = unat (RDLength a)" using assms(1) by (simp add: wf_answer_def)
  have e: "elems s = pre @ enc_labels ?ls @ 0 # (be16 (AType a) @ be16 (AClass a) @ be32 (TTL a)
             @ be16 (RDLength a) @ RData a @ rest)"
    using assms(2) by (simp add: Answer_ToBytes_eq)
  have pl: "parseLabels s (length pre) = Some (Inr (?ls, length ?p))"
    using parseLabels_elems [OF wf_name_labels e] assms(1) by (simp add: wf_answer_def)
  have l2: "length (?p @ be16 (AType a)) = length ?p + 2"
    and l4: "length (?p @ be16 (AType a) @ be16 (AClass a)) = length ?p + 4"
    and l8: "length (?p @ be16 (AType a) @ be16 (AClass a) @ be32 (TTL a)) = length ?p + 8"
    by (simp_all add: be16_def be32_def)
  have t: "Uint16_at s (length ?p) = Inr (AType a)"
    by (rule Uint16_at_elems
          [where post = "be16 (AClass a) @ be32 (TTL a) @ be16 (RDLength a) @ RData a @ rest"])
       (simp add: e)
  have "Uint16_at s (length (?p @ be16 (AType a))) = Inr (AClass a)"
    by (rule Uint16_at_elems [where post = "be32 (TTL a) @ be16 (RDLength a) @ RData a @ rest"])
       (simp add: e)
  then have c: "Uint16_at s (length ?p + 2) = Inr (AClass a)" unfolding l2 .
  have "Uint32_at s (length (?p @ be16 (AType a) @ be16 (AClass a))) = Inr (TTL a)"
    by (rule Uint32_at_elems [where post = "be16 (RDLength a) @ RData a @ rest"]) (simp add: e)
  then have l: "Uint32_at s (length ?p + 4) = Inr (TTL a)" unfolding l4 .
  have "Uint16_at s (length (?p @ be16 (AType a) @ be16 (AClass a) @ be32 (TTL a)))
          = Inr (RDLength a)"
    by (rule Uint16_at_elems [where post = "RData a @ rest"]) (simp add: e)
  then have n: "Uint16_at s (length ?p + 8) = Inr (RDLength a)" unfolding l8 .
  have d: "reslice s (length ?p + 10) (length ?p + 10 + unat (RDLength a)) = Inr (RData a)"
    by (simp add: reslice_def scap_def backing_def e be16_def be32_def rd [symmetric])
  show ?thesis
    using pl t c l n d
    by (simp add: parseAnswer_def bindP_def Join_Split)
qed

text \<open>The same, for the slice an encoder returns.\<close>

lemma parseHeader_Header_ToBytes:
  "wf_header h \<Longrightarrow> parseHeader (full (Header_ToBytes h)) = Inr h"
  by (rule parseHeader_elems [where rest = "[]"]) (simp_all add: full_def)

lemma parseLabels_enc_full:
  assumes "list_all (\<lambda>l. 1 \<le> length l \<and> length l < 192) ls"
  shows "parseLabels (full (enc_labels ls @ [0] @ rest)) 0 =
           Some (Inr (ls, length (enc_labels ls) + 1))"
  using parseLabels_elems [OF assms, of "full (enc_labels ls @ [0] @ rest)" "[]" rest]
  by (simp add: full_def)

lemma parseQuestion_Question_ToBytes:
  "wf_question q \<Longrightarrow>
   parseQuestion (full (Question_ToBytes q)) 0 = Some (Inr (q, length (Question_ToBytes q)))"
  using parseQuestion_elems [of q "full (Question_ToBytes q)" "[]" "[]"]
  by (simp add: full_def)

lemma parseAnswer_Answer_ToBytes:
  "wf_answer a \<Longrightarrow> parseAnswer (full (Answer_ToBytes a)) 0 = Some (Inr a)"
  using parseAnswer_elems [of a "full (Answer_ToBytes a)" "[]" "[]"]
  by (simp add: full_def)

text \<open>
  The empty name is outside \<open>wf_name\<close>: \<open>strings.Split("", ".")\<close> is one empty label, for
  which the encoder writes a zero length byte before the terminating zero byte, and the
  decoder, stopping at the first zero byte, reads type and class one byte early.
\<close>

lemma root_question_encoding:
  "Question_ToBytes \<lparr>QName = [], QType = 1, QClass = 1\<rparr> = [0, 0, 0, 1, 0, 1]"
  by (simp add: Question_ToBytes_eq be16_def)

lemma root_question_decoding:
  "parseQuestion (full (Question_ToBytes \<lparr>QName = [], QType = 1, QClass = 1\<rparr>)) 0
     = Some (Inr (\<lparr>QName = [], QType = 0, QClass = 256\<rparr>, 5))"
proof -
  have l: "parseLabels (full [0, 0, 0, 1, 0, 1]) 0 = Some (Inr ([], 1))"
    unfolding parseLabels_def
    by (subst parseLabels_loop_zero) (simp_all add: full_def slen_def)
  show ?thesis
    unfolding root_question_encoding parseQuestion_def l
    by (simp add: Uint16_at_cases bindP_def full_def scap_def backing_def Uint16_def)
qed

lemma root_wire_decoding:
  "parseQuestion (full [0, 0, 1, 0, 1]) 0 = Some (Inr (\<lparr>QName = [], QType = 1, QClass = 1\<rparr>, 5))"
proof -
  have l: "parseLabels (full [0, 0, 1, 0, 1]) 0 = Some (Inr ([], 1))"
    unfolding parseLabels_def
    by (subst parseLabels_loop_zero) (simp_all add: full_def slen_def)
  show ?thesis
    unfolding parseQuestion_def l
    by (simp add: Uint16_at_cases bindP_def full_def scap_def backing_def Uint16_def)
qed

lemma root_answer_encoding:
  "Answer_ToBytes \<lparr>AName = [], AType = 1, AClass = 1, TTL = 300, RDLength = 4,
                    RData = [93, 184, 216, 34]\<rparr>
     = [0, 0, 0, 1, 0, 1, 0, 0, 1, 44, 0, 4, 93, 184, 216, 34]"
  by (simp add: Answer_ToBytes_eq be16_def be32_def)

lemma root_answer_decoding:
  "parseAnswer (full (Answer_ToBytes \<lparr>AName = [], AType = 1, AClass = 1, TTL = 300,
                    RDLength = 4, RData = [93, 184, 216, 34]\<rparr>)) 0
     = Some (Inl SliceBoundsOutOfRange)"
proof -
  let ?b = "full [0, 0, 0, 1, 0, 1, 0, 0, 1, 44, 0, 4, 93, 184, 216, 34]"
  have l: "parseLabels ?b 0 = Some (Inr ([], 1))"
    unfolding parseLabels_def
    by (subst parseLabels_loop_zero) (simp_all add: full_def slen_def)
  have n: "Uint16_at ?b (1 + 8) = Inr 11264"
    by (simp add: Uint16_at_cases full_def scap_def backing_def Uint16_def)
  have c: "scap ?b < 1 + 10 + unat (11264 :: uint16)"
    by (simp add: full_def scap_def)
  show ?thesis
    unfolding root_answer_encoding
    by (rule parseAnswer_rdata_panic [OF l n c])
qed

text \<open>
  For every header whose bit-fields are within their widths, and for every question and
  record whose name splits at the dots into labels of 1 to 63 bytes (the record's RDATA
  being RDLENGTH bytes long), decoding what the encoder produced gives the value back.
\<close>

lemma roundtrip_labelled_names:
  assumes "wf_header h" and "wf_question q" and "wf_answer a"
  shows "parseHeader (full (Header_ToBytes h)) = Inr h
       \<and> parseQuestion (full (Question_ToBytes q)) 0 = Some (Inr (q, length (Question_ToBytes q)))
       \<and> parseAnswer (full (Answer_ToBytes a)) 0 = Some (Inr a)"
  using assms
  by (simp add: parseHeader_Header_ToBytes parseQuestion_Question_ToBytes
        parseAnswer_Answer_ToBytes)

lemma roundtrip_labelled_names_example:
  "wf_header \<lparr>ID = 0x1234, QR = 1, OpCode = 2, AuthorativeAnswer = 1, Truncation = 0,
      RecursionDesired = 1, RecursionAvailable = 1, Reserved = 5, ResponseCode = 3,
      QuestionCount = 1, AnswerRecordCount = 2, AuthorativeRecordCount = 3,
      AdditionalRecordCount = 4\<rparr>
   \<and> wf_question \<lparr>QName = ''www.example.com'', QType = 1, QClass = 1\<rparr>
   \<and> wf_answer \<lparr>AName = ''example.com'', AType = 1, AClass = 1, TTL = 300, RDLength = 4,
        RData = [93, 184, 216, 34]\<rparr>
   \<and> parseHeader (full (Header_ToBytes \<lparr>ID = 0x1234, QR = 1, OpCode = 2, AuthorativeAnswer = 1,
        Truncation = 0, RecursionDesired = 1, RecursionAvailable = 1, Reserved = 5,
        ResponseCode = 3, QuestionCount = 1, AnswerRecordCount = 2, AuthorativeRecordCount = 3,
        AdditionalRecordCount = 4\<rparr>))
       = Inr \<lparr>ID = 0x1234, QR = 1, OpCode = 2, AuthorativeAnswer = 1,
        Truncation = 0, RecursionDesired = 1, RecursionAvailable = 1, Reserved = 5,
        ResponseCode = 3, QuestionCount = 1, AnswerRecordCount = 2, AuthorativeRecordCount = 3,
        AdditionalRecordCount = 4\<rparr>
   \<and> parseQuestion (full (Question_ToBytes \<lparr>QName = ''www.example.com'', QType = 1, QClass = 1\<rparr>)) 0
       = Some (Inr (\<lparr>QName = ''www.example.com'', QType = 1, QClass = 1\<rparr>, 21))
   \<and> parseAnswer (full (Answer_ToBytes \<lparr>AName = ''example.com'', AType = 1, AClass = 1,
        TTL = 300, RDLength = 4, RData = [93, 184, 216, 34]\<rparr>)) 0
       = Some (Inr \<lparr>AName = ''example.com'', AType = 1, AClass = 1, TTL = 300, RDLength = 4,
        RData = [93, 184, 216, 34]\<rparr>)"
proof -
  let ?h = "\<lparr>ID = 0x1234, QR = 1, OpCode = 2, AuthorativeAnswer = 1, Truncation = 0,
      RecursionDesired = 1, RecursionAvailable = 1, Reserved = 5, ResponseCode = 3,
      QuestionCount = 1, AnswerRecordCount = 2, AuthorativeRecordCount = 3,
      AdditionalRecordCount = 4\<rparr>"
  let ?q = "\<lparr>QName = ''www.example.com'', QType = 1, QClass = 1\<rparr>"
  let ?a = "\<lparr>AName = ''example.com'', AType = 1, AClass = 1, TTL = 300, RDLength = 4,
        RData = [93, 184, 216, 34]\<rparr>"
  have h: "wf_header ?h" by (simp add: wf_header_def)
  have q: "wf_question ?q" by (simp add: wf_question_def wf_name_def)
  have a: "wf_answer ?a" by (simp add: wf_answer_def wf_name_def)
  have n: "length (Question_ToBytes ?q) = 21"
    by (simp add: Question_ToBytes_eq be16_def)
  show ?thesis
    using roundtrip_labelled_names [OF h q a] h q a unfolding n by simp
qed

section \<open>Compression pointers and termination\<close>

lemma parseLabels_self_pointer_aux:
  "parseLabels_loop buf i labels = Some y \<Longrightarrow> \<not> (buf = full [0xC0, 0x00] \<and> i = 0)"
proof (induct rule: parseLabels_loop.raw_induct [rotated, consumes 1, case_names step])
  case (step f buf i labels y)
  show ?case
  proof
    assume b: "buf = full [0xC0, 0x00] \<and> i = 0"
    have off: "Uint16_at (full [0xC0, 0x00]) 0 = Inr 0xC000"
      by (simp add: Uint16_at_def reslice_def full_def scap_def backing_def bindP_def Uint16_def)
    have ix: "index (full [0xC0, 0x00]) 0 = Inr 0xC0"
      by (simp add: index_def full_def slen_def)
    have "f (full [0xC0, 0x00]) 0 [] \<noteq> None"
    proof
      assume "f (full [0xC0, 0x00]) 0 [] = None"
      with step(2) b show False by (simp add: ix off Let_def)
    qed
    then obtain r where "f (full [0xC0, 0x00]) 0 [] = Some r" by blast
    with step(1) show False by blast
  qed
qed

lemma parseLabels_self_pointer: "parseLabels (full [0xC0, 0x00]) 0 = None"
  using parseLabels_self_pointer_aux [of "full [0xC0, 0x00]" 0 "[]"]
  by (cases "parseLabels_loop (full [0xC0, 0x00]) 0 []") (auto simp: parseLabels_def)

lemma parseLabels_loop_first_pointer:
  "(first_pointer buf i = None \<longrightarrow> (\<exists>r. parseLabels_loop buf i acc = Some r)) \<and>
   (\<forall>off r'. first_pointer buf i = Some off \<longrightarrow> parseLabels buf off = Some r' \<longrightarrow>
        (\<exists>r. parseLabels_loop buf i acc = Some r))"
proof (induction buf i arbitrary: acc rule: first_pointer.induct)
  case (1 buf i)
  show ?case
  proof (cases "i < slen buf")
    case False
    then show ?thesis
      by (simp add: parseLabels_loop_index_panic first_pointer.simps [of buf i])
  next
    case lt: True
    show ?thesis
    proof (cases "elems buf ! i = 0")
      case True
      with lt show ?thesis
        by (simp add: parseLabels_loop_zero first_pointer.simps [of buf i])
    next
      case nz: False
      show ?thesis
      proof (cases "192 \<le> unat (elems buf ! i)")
        case ptr: True
        show ?thesis
        proof (cases "i + 2 \<le> scap buf")
          case True
          with lt nz ptr show ?thesis
            by (auto simp add: parseLabels_loop_pointer first_pointer.simps [of buf i]
                  split: sum.splits)
        next
          case False
          with lt nz ptr show ?thesis
            by (simp add: parseLabels_loop_pointer_panic first_pointer.simps [of buf i])
        qed
      next
        case lab: False
        show ?thesis
        proof (cases "i + 1 + unat (elems buf ! i) \<le> scap buf")
          case True
          have fp: "first_pointer buf i = first_pointer buf (i + (unat (elems buf ! i) + 1))"
            using lt nz lab True by (simp add: first_pointer.simps [of buf i])
          have pl: "parseLabels_loop buf i acc =
             parseLabels_loop buf (i + (unat (elems buf ! i) + 1))
               (acc @ [map char_of_byte (take (unat (elems buf ! i)) (drop (i + 1) (backing buf)))])"
            using lt nz lab True by (simp add: parseLabels_loop_label)
          show ?thesis
            unfolding fp pl using "1.IH" lt nz lab True by simp
        next
          case False
          with lt nz lab show ?thesis
            by (simp add: parseLabels_loop_label_panic first_pointer.simps [of buf i])
        qed
      qed
    qed
  qed
qed

lemma pointers_backward_returns:
  "pointers_backward buf start \<Longrightarrow> \<exists>r. parseLabels buf start = Some r"
proof (induction buf start rule: pointers_backward.induct)
  case (1 buf start)
  show ?case
  proof (cases "first_pointer buf start")
    case None
    then show ?thesis
      using parseLabels_loop_first_pointer [of buf start "[]"] by (simp add: parseLabels_def)
  next
    case (Some off)
    with "1.prems" have lt: "off < start" and pb: "pointers_backward buf off"
      by (simp_all add: pointers_backward.simps [of buf start] split: if_splits)
    from "1.IH" [OF Some lt pb] obtain r' where "parseLabels buf off = Some r'" by blast
    with Some show ?thesis
      using parseLabels_loop_first_pointer [of buf start "[]"] by (simp add: parseLabels_def)
  qed
qed

section \<open>The name encoder of the specification\<close>

lemma filter_nonempty_id: "list_all (\<lambda>l. l \<noteq> []) ls \<Longrightarrow> filter (\<lambda>l. l \<noteq> []) ls = ls"
  by (induction ls) simp_all

lemma spec_encodeName_eq:
  "list_all (\<lambda>l. l \<noteq> []) (Split name CHR ''.'') \<Longrightarrow>
   spec_encodeName name = enc_labels (Split name CHR ''.'') @ [0]"
  by (simp add: spec_encodeName_def enc_labels_def filter_nonempty_id)

section \<open>The resolver\<close>

lemma parse_fields_wf:
  fixes b :: byte
  shows "drop_bit 7 b < 2" and "drop_bit 3 b AND 0x0F < 16" and "drop_bit 2 b AND 0x01 < 2"
    and "drop_bit 1 b AND 0x01 < 2" and "b AND 0x01 < 2" and "drop_bit 4 b AND 0x07 < 8"
    and "b AND 0x0F < 16"
proof -
  have "unat (drop_bit 7 b) = unat b div 2 ^ 7"
    by (simp add: drop_bit_eq_div unat_div)
  moreover have "unat b < 256" using unsigned_less [of b] by simp
  ultimately have "unat (drop_bit 7 b) < 2" by simp
  then show "drop_bit 7 b < 2" by (simp add: word_less_nat_alt)
  show "drop_bit 3 b AND 0x0F < 16" unfolding m15 using and_mask_less' [of 4 "drop_bit 3 b"] by simp
  show "drop_bit 2 b AND 0x01 < 2" unfolding m1 using and_mask_less' [of 1 "drop_bit 2 b"] by simp
  show "drop_bit 1 b AND 0x01 < 2" unfolding m1 using and_mask_less' [of 1 "drop_bit 1 b"] by simp
  show "b AND 0x01 < 2" unfolding m1 using and_mask_less' [of 1 b] by simp
  show "drop_bit 4 b AND 0x07 < 8" unfolding m7 using and_mask_less' [of 3 "drop_bit 4 b"] by simp
  show "b AND 0x0F < 16" unfolding m15 using and_mask_less' [of 4 b] by simp
qed

lemma parseHeader_wf: "parseHeader buf = Inr h \<Longrightarrow> wf_header h"
  unfolding parseHeader_def bindP_def wf_header_def
  by (auto split: sum.splits simp add: parse_fields_wf simp del: drop_bit_and)

lemma fold_append_concat:
  "fold (\<lambda>x r. r @ f x) xs r0 = r0 @ concat (map f xs)"
  by (induction xs arbitrary: r0) simp_all

lemma copy_at_zeros_0:
  "length src \<le> n \<Longrightarrow> copy_at (replicate n 0) 0 src = src @ replicate (n - length src) 0"
  by (simp add: copy_at_def)

lemma assemble_eq:
  "assemble h qs ans =
     (reply_header h (length qs) (length ans),
      Header_ToBytes (reply_header h (length qs) (length ans))
        @ concat (map Question_ToBytes qs) @ concat (map Answer_ToBytes ans))"
proof -
  have "copy_at (replicate 12 0) 0 (Header_ToBytes x) = Header_ToBytes x" for x
    using copy_at_zeros_0 [of "Header_ToBytes x" 12] by simp
  then show ?thesis
    by (simp add: assemble_def reply_header_def Let_def fold_append_concat)
qed

lemma length_copy_at: "k \<le> length buf \<Longrightarrow> length (copy_at buf k src) = length buf"
  by (auto simp add: copy_at_def min_def)

lemma queryDNS_written:
  assumes "queryDNS req net = Inr (written, r)" and "MQuestion req = [q]"
  shows "written = Header_ToBytes (MHeader req) @ Question_ToBytes q"
proof -
  let ?H = "Header_ToBytes (MHeader req)"
  let ?Q = "Question_ToBytes q"
  let ?buf = "copy_at (copy_at (replicate 10240 0) 0 ?H) 12 ?Q"
  have len: "length ?buf = 10240" by (simp add: length_copy_at)
  from assms have fit: "12 + length ?Q \<le> 10240"
    by (simp add: queryDNS_def Let_def len split: if_splits)
  have b1: "copy_at (replicate 10240 0) 0 ?H = ?H @ replicate 10228 0"
    using copy_at_zeros_0 [of ?H 10240] by simp
  have b2: "copy_at (?H @ replicate 10228 0) 12 ?Q = ?H @ ?Q @ replicate (10228 - length ?Q) 0"
    using fit by (subst copy_at_append) simp_all
  have tk: "take (12 + length ?Q) ?buf = ?H @ ?Q"
    unfolding b1 b2 by simp
  from assms fit show ?thesis
    by (simp add: queryDNS_def Let_def len tk split: roundtrip.splits)
qed

lemma forward_loop_hdr:
  "forward_loop net k qs st = Some (st', ex) \<Longrightarrow>
   (hdr st')\<lparr>QuestionCount := a, AnswerRecordCount := b\<rparr>
     = (hdr st)\<lparr>QuestionCount := a, AnswerRecordCount := b\<rparr>"
proof (induction qs arbitrary: k st)
  case Nil
  then show ?case by simp
next
  case (Cons q qs)
  let ?h = "(hdr st)\<lparr>QuestionCount := 1, AnswerRecordCount := 0\<rparr>"
  let ?req = "\<lparr>MHeader = ?h, MQuestion = [q], MAnswer = [], Authority = 0, Additional = 0\<rparr>"
  show ?case
  proof (cases "\<exists>w resp respMsg. queryDNS ?req (net k) = Inr (w, Some resp)
                  \<and> parseRequest resp = Some (Inr (respMsg, None))")
    case True
    then obtain w resp respMsg where q: "queryDNS ?req (net k) = Inr (w, Some resp)"
      and p: "parseRequest resp = Some (Inr (respMsg, None))" by blast
    let ?st1 = "st\<lparr>hdr := ?h, forwarded := forwarded st @ [w]\<rparr>"
    let ?st2 = "?st1\<lparr>questions := questions ?st1 @ MQuestion respMsg,
                      answers := answers ?st1 @ MAnswer respMsg,
                      replies := replies ?st1 @ [respMsg]\<rparr>"
    from Cons.prems q p have rec: "forward_loop net (k + 1) qs ?st2 = Some (st', ex)"
      by (simp add: Let_def)
    from Cons.IH [OF rec] show ?thesis by simp
  next
    case False
    with Cons.prems have "hdr st' = ?h"
      by (auto simp add: Let_def split: option.splits sum.splits prod.splits)
    then show ?thesis by simp
  qed
qed

lemma forwarded_request_idem:
  "forwarded_request (h\<lparr>QuestionCount := 1, AnswerRecordCount := 0\<rparr>) = forwarded_request h"
  by (simp add: forwarded_request_def fun_eq_iff)

lemma forward_loop_forwarded:
  "forward_loop net k qs st = Some (st', ex) \<Longrightarrow>
   \<exists>n\<le>length qs. forwarded st' = forwarded st @ map (forwarded_request (hdr st)) (take n qs)
      \<and> (ex = Completed \<longrightarrow> n = length qs)"
proof (induction qs arbitrary: k st)
  case Nil
  then show ?case by simp
next
  case (Cons q qs)
  let ?h = "(hdr st)\<lparr>QuestionCount := 1, AnswerRecordCount := 0\<rparr>"
  let ?req = "\<lparr>MHeader = ?h, MQuestion = [q], MAnswer = [], Authority = 0, Additional = 0\<rparr>"
  show ?case
  proof (cases "queryDNS ?req (net k)")
    case (Inl p)
    with Cons.prems have "forwarded st' = forwarded st" and "ex \<noteq> Completed"
      by (auto simp add: Let_def)
    then show ?thesis by (intro exI [of _ 0]) simp
  next
    case (Inr wr)
    obtain w r where wr: "wr = (w, r)" by (cases wr)
    have w: "w = forwarded_request (hdr st) q"
      using queryDNS_written [of ?req "net k" w r q] Inr wr by (simp add: forwarded_request_def)
    let ?st1 = "st\<lparr>hdr := ?h, forwarded := forwarded st @ [w]\<rparr>"
    show ?thesis
    proof (cases "\<exists>resp respMsg. r = Some resp \<and> parseRequest resp = Some (Inr (respMsg, None))")
      case True
      then obtain resp respMsg where r: "r = Some resp"
        and p: "parseRequest resp = Some (Inr (respMsg, None))" by blast
      let ?st2 = "?st1\<lparr>questions := questions ?st1 @ MQuestion respMsg,
                        answers := answers ?st1 @ MAnswer respMsg,
                        replies := replies ?st1 @ [respMsg]\<rparr>"
      from Cons.prems Inr wr r p have rec: "forward_loop net (k + 1) qs ?st2 = Some (st', ex)"
        by (simp add: Let_def)
      from Cons.IH [OF rec] obtain n where n: "n \<le> length qs"
        "forwarded st' = forwarded ?st2 @ map (forwarded_request (hdr ?st2)) (take n qs)"
        "ex = Completed \<longrightarrow> n = length qs" by blast
      show ?thesis
        using n w by (intro exI [of _ "Suc n"]) (simp add: forwarded_request_idem)
    next
      case False
      with Cons.prems Inr wr have "forwarded st' = forwarded st @ [w]" and "ex \<noteq> Completed"
        by (auto simp add: Let_def split: option.splits sum.splits prod.splits)
      then show ?thesis using w by (intro exI [of _ "Suc 0"]) simp
    qed
  qed
qed

lemma forward_loop_acc:
  "forward_loop net k qs st = Some (st', ex) \<Longrightarrow>
   \<exists>rs. replies st' = replies st @ rs
      \<and> questions st' = questions st @ concat (map MQuestion rs)
      \<and> answers st' = answers st @ concat (map MAnswer rs)
      \<and> length rs \<le> length qs \<and> (ex = Completed \<longrightarrow> length rs = length qs)"
proof (induction qs arbitrary: k st)
  case Nil
  then show ?case by simp
next
  case (Cons q qs)
  let ?h = "(hdr st)\<lparr>QuestionCount := 1, AnswerRecordCount := 0\<rparr>"
  let ?req = "\<lparr>MHeader = ?h, MQuestion = [q], MAnswer = [], Authority = 0, Additional = 0\<rparr>"
  show ?case
  proof (cases "\<exists>w resp respMsg. queryDNS ?req (net k) = Inr (w, Some resp)
                  \<and> parseRequest resp = Some (Inr (respMsg, None))")
    case True
    then obtain w resp respMsg where q: "queryDNS ?req (net k) = Inr (w, Some resp)"
      and p: "parseRequest resp = Some (Inr (respMsg, None))" by blast
    let ?st1 = "st\<lparr>hdr := ?h, forwarded := forwarded st @ [w]\<rparr>"
    let ?st2 = "?st1\<lparr>questions := questions ?st1 @ MQuestion respMsg,
                      answers := answers ?st1 @ MAnswer respMsg,
                      replies := replies ?st1 @ [respMsg]\<rparr>"
    from Cons.prems q p have rec: "forward_loop net (k + 1) qs ?st2 = Some (st', ex)"
      by (simp add: Let_def)
    from Cons.IH [OF rec] obtain rs where rs: "replies st' = replies ?st2 @ rs"
      "questions st' = questions ?st2 @ concat (map MQuestion rs)"
      "answers st' = answers ?st2 @ concat (map MAnswer rs)"
      "length rs \<le> length qs" "ex = Completed \<longrightarrow> length rs = length qs" by blast
    then show ?thesis by (intro exI [of _ "respMsg # rs"]) simp
  next
    case False
    with Cons.prems have "replies st' = replies st" "questions st' = questions st"
      "answers st' = answers st" "ex \<noteq> Completed"
      by (auto simp add: Let_def split: option.splits sum.splits prod.splits)
    then show ?thesis by (intro exI [of _ "[]"]) simp
  qed
qed

lemma forward_loop_replies:
  "forward_loop net k qs st = Some (st', ex) \<Longrightarrow>
   \<exists>rs. replies st' = replies st @ rs \<and>
     (\<forall>i<length rs. \<exists>w resp.
        queryDNS \<lparr>MHeader = (hdr st)\<lparr>QuestionCount := 1, AnswerRecordCount := 0\<rparr>,
                  MQuestion = [qs ! i], MAnswer = [], Authority = 0, Additional = 0\<rparr>
                 (net (k + i)) = Inr (w, Some resp)
        \<and> parseRequest resp = Some (Inr (rs ! i, None)))"
proof (induction qs arbitrary: k st)
  case Nil
  then show ?case by simp
next
  case (Cons q qs)
  let ?h = "(hdr st)\<lparr>QuestionCount := 1, AnswerRecordCount := 0\<rparr>"
  let ?req = "\<lambda>x. \<lparr>MHeader = ?h, MQuestion = [x], MAnswer = [], Authority = 0, Additional = 0\<rparr>"
  show ?case
  proof (cases "\<exists>w resp respMsg. queryDNS (?req q) (net k) = Inr (w, Some resp)
                  \<and> parseRequest resp = Some (Inr (respMsg, None))")
    case True
    then obtain w resp respMsg where q: "queryDNS (?req q) (net k) = Inr (w, Some resp)"
      and p: "parseRequest resp = Some (Inr (respMsg, None))" by blast
    let ?st1 = "st\<lparr>hdr := ?h, forwarded := forwarded st @ [w]\<rparr>"
    let ?st2 = "?st1\<lparr>questions := questions ?st1 @ MQuestion respMsg,
                      answers := answers ?st1 @ MAnswer respMsg,
                      replies := replies ?st1 @ [respMsg]\<rparr>"
    from Cons.prems q p have rec: "forward_loop net (k + 1) qs ?st2 = Some (st', ex)"
      by (simp add: Let_def)
    from Cons.IH [OF rec] obtain rs where rs: "replies st' = replies ?st2 @ rs"
      and each: "\<And>i. i < length rs \<Longrightarrow> \<exists>w resp.
          queryDNS (?req (qs ! i)) (net (k + 1 + i)) = Inr (w, Some resp)
          \<and> parseRequest resp = Some (Inr (rs ! i, None))"
      by auto
    have "\<exists>w resp. queryDNS (?req ((q # qs) ! i)) (net (k + i)) = Inr (w, Some resp)
            \<and> parseRequest resp = Some (Inr ((respMsg # rs) ! i, None))"
      if "i < length (respMsg # rs)" for i
    proof (cases i)
      case 0
      with q p show ?thesis by auto
    next
      case (Suc j)
      with that have "j < length rs" by simp
      from each [OF this] Suc show ?thesis by simp
    qed
    with rs show ?thesis by (intro exI [of _ "respMsg # rs"]) simp
  next
    case False
    with Cons.prems have "replies st' = replies st"
      by (auto simp add: Let_def split: option.splits sum.splits prod.splits)
    then show ?thesis by (intro exI [of _ "[]"]) simp
  qed
qed

lemma parseRequest_error_None:
  "parseRequest request = Some (Inr (msg, err)) \<Longrightarrow> err = None"
  by (auto simp add: parseRequest_def split: sum.splits option.splits)

lemma parseRequest_header:
  "parseRequest request = Some (Inr (msg, err)) \<Longrightarrow> parseHeader request = Inr (MHeader msg)"
  by (auto simp add: parseRequest_def split: sum.splits option.splits)

lemma inbound_message_wf: "inbound_message e = Some msg \<Longrightarrow> wf_header (MHeader msg)"
  by (auto simp add: inbound_message_def split: option.splits sum.splits
        dest!: parseRequest_header parseHeader_wf)

lemma wf_reply_header: "wf_header h \<Longrightarrow> wf_header (reply_header h nq na)"
  by (simp add: wf_header_def reply_header_def)

lemma reply_header_update:
  "reply_header (h\<lparr>QuestionCount := a, AnswerRecordCount := b\<rparr>) nq na = reply_header h nq na"
  by (simp add: reply_header_def)

lemma reply_header_cong:
  assumes "h\<lparr>QuestionCount := a, AnswerRecordCount := b\<rparr>
            = h'\<lparr>QuestionCount := a, AnswerRecordCount := b\<rparr>"
  shows "reply_header h nq na = reply_header h' nq na"
  using reply_header_update [where h = h and a = a and b = b and nq = nq and na = na]
    reply_header_update [where h = h' and a = a and b = b and nq = nq and na = na] assms
  by simp

lemma handleConnection_completed:
  assumes "handleConnection e = Some out" and "inbound_message e = Some msg"
    and "merged out = Some m"
  obtains st where
    "forward_loop (upstream e) 0 (MQuestion msg)
       \<lparr>hdr = MHeader msg, questions = [], answers = [], forwarded = [], replies = []\<rparr>
       = Some (st, Completed)"
    and "out = \<lparr>exit = Completed, sent_upstream = forwarded st, upstream_replies = replies st,
                merged = Some m,
                response = Some (Header_ToBytes (MHeader m)
                  @ concat (map Question_ToBytes (MQuestion m))
                  @ concat (map Answer_ToBytes (MAnswer m))),
                delivered = (client_ok e \<and> length (Header_ToBytes (MHeader m)
                  @ concat (map Question_ToBytes (MQuestion m))
                  @ concat (map Answer_ToBytes (MAnswer m))) \<le> max_udp_payload)\<rparr>"
    and "m = \<lparr>MHeader = reply_header (MHeader msg) (length (questions st)) (length (answers st)),
              MQuestion = questions st, MAnswer = answers st, Authority = 0, Additional = 0\<rparr>"
proof -
  let ?st0 = "\<lparr>hdr = MHeader msg, questions = [], answers = [], forwarded = [], replies = []\<rparr>"
  from assms(2) obtain d err where d: "inbound e = Some d"
    and p: "parseRequest (full (copy_at (replicate 2048 0) 0 d)) = Some (Inr (msg, err))"
    by (auto simp add: inbound_message_def split: option.splits sum.splits)
  from parseRequest_error_None [OF p] have err: "err = None" .
  have dial: "dial e = Connected"
  proof (rule ccontr)
    assume "dial e \<noteq> Connected"
    with assms(1) d p err have "\<exists>ex. out = stopped ex [] []"
      by (cases "dial e") (auto simp add: handleConnection_def Let_def)
    with assms(3) show False by (auto simp add: stopped_def)
  qed
  from assms(1) d p err dial
  have hc: "(case forward_loop (upstream e) 0 (MQuestion msg) ?st0 of
               None \<Rightarrow> None
             | Some (st, Completed) \<Rightarrow>
                 let (h, bytes) = assemble (hdr st) (questions st) (answers st)
                 in Some \<lparr>exit = Completed, sent_upstream = forwarded st,
                          upstream_replies = replies st,
                          merged = Some \<lparr>MHeader = h, MQuestion = questions st,
                                          MAnswer = answers st, Authority = 0,
                                          Additional = 0\<rparr>,
                          response = Some bytes,
                          delivered = (client_ok e \<and> length bytes \<le> max_udp_payload)\<rparr>
             | Some (st, ex) \<Rightarrow> Some (stopped ex (forwarded st) (replies st))) = Some out"
    by (simp add: handleConnection_def Let_def)
  then obtain st ex where fl: "forward_loop (upstream e) 0 (MQuestion msg) ?st0 = Some (st, ex)"
    by (cases "forward_loop (upstream e) 0 (MQuestion msg) ?st0") auto
  have ex: "ex = Completed"
  proof (rule ccontr)
    assume "ex \<noteq> Completed"
    with hc fl have "out = stopped ex (forwarded st) (replies st)"
      by (cases ex) simp_all
    with assms(3) show False by (simp add: stopped_def)
  qed
  have rh: "reply_header (hdr st) nq na = reply_header (MHeader msg) nq na" for nq na
    using forward_loop_hdr [OF fl, where a = 0 and b = 0] by (intro reply_header_cong [where a = 0 and b = 0]) simp
  from hc fl ex
  have out: "out = \<lparr>exit = Completed, sent_upstream = forwarded st,
      upstream_replies = replies st,
      merged = Some \<lparr>MHeader = reply_header (MHeader msg) (length (questions st)) (length (answers st)),
                      MQuestion = questions st, MAnswer = answers st, Authority = 0,
                      Additional = 0\<rparr>,
      response = Some (Header_ToBytes (reply_header (MHeader msg) (length (questions st)) (length (answers st)))
                  @ concat (map Question_ToBytes (questions st))
                  @ concat (map Answer_ToBytes (answers st))),
      delivered = (client_ok e \<and> length (Header_ToBytes (reply_header (MHeader msg) (length (questions st)) (length (answers st)))
                  @ concat (map Question_ToBytes (questions st))
                  @ concat (map Answer_ToBytes (answers st))) \<le> max_udp_payload)\<rparr>"
    by (simp add: assemble_eq rh)
  with assms(3)
  have m: "m = \<lparr>MHeader = reply_header (MHeader msg) (length (questions st)) (length (answers st)),
              MQuestion = questions st, MAnswer = answers st, Authority = 0, Additional = 0\<rparr>"
    by simp
  show thesis
  proof (rule that [of st])
    show "forward_loop (upstream e) 0 (MQuestion msg) ?st0 = Some (st, Completed)"
      using fl ex by simp
    show "m = \<lparr>MHeader = reply_header (MHeader msg) (length (questions st)) (length (answers st)),
              MQuestion = questions st, MAnswer = answers st, Authority = 0, Additional = 0\<rparr>"
      by (rule m)
    show "out = \<lparr>exit = Completed, sent_upstream = forwarded st, upstream_replies = replies st,
                merged = Some m,
                response = Some (Header_ToBytes (MHeader m)
                  @ concat (map Question_ToBytes (MQuestion m))
                  @ concat (map Answer_ToBytes (MAnswer m))),
                delivered = (client_ok e \<and> length (Header_ToBytes (MHeader m)
                  @ concat (map Question_ToBytes (MQuestion m))
                  @ concat (map Answer_ToBytes (MAnswer m))) \<le> max_udp_payload)\<rparr>"
      unfolding m using out by simp
  qed
qed

lemma length_Question_ToBytes_ge: "5 \<le> length (Question_ToBytes q)"
  by (simp add: Question_ToBytes_eq be16_def)

lemma length_Answer_ToBytes_ge: "11 \<le> length (Answer_ToBytes a)"
  by (simp add: Answer_ToBytes_eq be16_def be32_def)

lemma length_concat_ge:
  "(\<And>x. c \<le> length (f x)) \<Longrightarrow> c * length xs \<le> length (concat (map f xs))"
proof (induction xs)
  case Nil
  show ?case by simp
next
  case (Cons x xs)
  from Cons.prems have "c \<le> length (f x)" .
  moreover from Cons have "c * length xs \<le> length (concat (map f xs))" by simp
  ultimately show ?case by simp
qed

lemma unat_of_nat_uint16: "n < 65536 \<Longrightarrow> unat (of_nat n :: uint16) = n"
  by (simp add: unat_of_nat)

lemma datagram_counts:
  assumes "length (H @ concat (map Question_ToBytes qs) @ concat (map Answer_ToBytes ans))
             \<le> max_udp_payload"
  shows "unat (of_nat (length qs) :: uint16) = length qs"
    and "unat (of_nat (length ans) :: uint16) = length ans"
proof -
  have "5 * length qs \<le> length (concat (map Question_ToBytes qs))"
    by (rule length_concat_ge) (rule length_Question_ToBytes_ge)
  with assms have "length qs < 65536" by (simp add: max_udp_payload_def)
  then show "unat (of_nat (length qs) :: uint16) = length qs" by (rule unat_of_nat_uint16)
  have "11 * length ans \<le> length (concat (map Answer_ToBytes ans))"
    by (rule length_concat_ge) (rule length_Answer_ToBytes_ge)
  with assms have "length ans < 65536" by (simp add: max_udp_payload_def)
  then show "unat (of_nat (length ans) :: uint16) = length ans" by (rule unat_of_nat_uint16)
qed

lemma parseRequest_query_elems:
  assumes "wf_header h" and "QuestionCount h = 1" and "AnswerRecordCount h = 0"
    and "wf_question q" and "elems s = Header_ToBytes h @ Question_ToBytes q @ rest"
  shows "parseRequest s = Some (Inr (\<lparr>MHeader = h, MQuestion = [q], MAnswer = [],
                                        Authority = 0, Additional = 0\<rparr>, None))"
proof -
  have h: "parseHeader s = Inr h" by (rule parseHeader_elems [OF assms(1) assms(5)])
  have "parseQuestion s (length (Header_ToBytes h))
          = Some (Inr (q, length (Header_ToBytes h) + length (Question_ToBytes q)))"
    by (rule parseQuestion_elems [OF assms(4) assms(5)])
  then have q: "parseQuestion s 12 = Some (Inr (q, 12 + length (Question_ToBytes q)))" by simp
  show ?thesis
    by (simp add: parseRequest_def h q assms(2,3))
qed

lemma parseRequest_reply_elems:
  assumes "wf_header h" and "QuestionCount h = 1" and "AnswerRecordCount h = 1"
    and "wf_question q" and "wf_answer a"
    and "elems s = Header_ToBytes h @ Question_ToBytes q @ Answer_ToBytes a @ rest"
  shows "parseRequest s = Some (Inr (\<lparr>MHeader = h, MQuestion = [q], MAnswer = [a],
                                        Authority = 0, Additional = 0\<rparr>, None))"
proof -
  have h: "parseHeader s = Inr h" by (rule parseHeader_elems [OF assms(1) assms(6)])
  have "parseQuestion s (length (Header_ToBytes h))
          = Some (Inr (q, length (Header_ToBytes h) + length (Question_ToBytes q)))"
    by (rule parseQuestion_elems [OF assms(4) assms(6)])
  then have q: "parseQuestion s 12 = Some (Inr (q, 12 + length (Question_ToBytes q)))" by simp
  have "parseAnswer s (length (Header_ToBytes h @ Question_ToBytes q)) = Some (Inr a)"
    by (rule parseAnswer_elems [OF assms(5), where rest = rest]) (simp add: assms(6))
  then have a: "parseAnswer s (12 + length (Question_ToBytes q)) = Some (Inr a)" by simp
  show ?thesis
    by (simp add: parseRequest_def h q a assms(2,3))
qed

lemma queryDNS_reply:
  assumes "MQuestion req = [q]" and "12 + length (Question_ToBytes q) \<le> 10240"
    and "length d \<le> 10240"
  shows "\<exists>sp. queryDNS req (Reply d)
           = Inr (Header_ToBytes (MHeader req) @ Question_ToBytes q, Some \<lparr>elems = d, spare = sp\<rparr>)"
proof -
  let ?H = "Header_ToBytes (MHeader req)"
  let ?Q = "Question_ToBytes q"
  let ?buf = "copy_at (copy_at (replicate 10240 0) 0 ?H) 12 ?Q"
  have len: "length ?buf = 10240" by (simp add: length_copy_at)
  have b1: "copy_at (replicate 10240 0) 0 ?H = ?H @ replicate 10228 0"
    using copy_at_zeros_0 [of ?H 10240] by simp
  have b2: "copy_at (?H @ replicate 10228 0) 12 ?Q = ?H @ ?Q @ replicate (10228 - length ?Q) 0"
    using assms(2) by (subst copy_at_append) simp_all
  have tk: "take (12 + length ?Q) ?buf = ?H @ ?Q"
    unfolding b1 b2 by simp
  have mn: "min (length d) 10240 = length d" using assms(3) by simp
  have rd: "take (length d) (copy_at ?buf 0 d) = d"
    using assms(3) by (simp add: copy_at_def len)
  show ?thesis
    using assms
    by (simp add: queryDNS_def Let_def len tk mn rd)
qed

lemma example_wf:
  "opc < 16 \<Longrightarrow> wf_header (example_header opc)"
  "opc < 16 \<Longrightarrow> wf_header (MHeader (example_upstream_reply opc))"
  "wf_question example_question"
  "wf_answer example_answer"
  by (simp_all add: wf_header_def example_header_def example_upstream_reply_def wf_question_def
        wf_answer_def wf_name_def example_question_def example_answer_def)

lemma example_lengths:
  "length (Question_ToBytes example_question) = 17"
  "length (Answer_ToBytes example_answer) = 27"
  by (simp_all add: Question_ToBytes_eq Answer_ToBytes_eq example_question_def
        example_answer_def be16_def be32_def)

lemma example_inbound_message:
  assumes "opc < 16"
  shows "inbound_message (example_env opc) = Some (example_query opc)"
proof -
  let ?d = "Header_ToBytes (example_header opc) @ Question_ToBytes example_question"
  have inbuf: "copy_at (replicate 2048 0) 0 ?d = ?d @ replicate (2048 - length ?d) 0"
    by (rule copy_at_zeros_0) (simp add: example_lengths)
  have "parseRequest (full (?d @ replicate (2048 - length ?d) 0))
          = Some (Inr (example_query opc, None))"
    unfolding example_query_def
    by (rule parseRequest_query_elems [OF example_wf(1) [OF assms] _ _ example_wf(3),
          where rest = "replicate (2048 - length ?d) 0"])
       (simp_all add: example_header_def full_def)
  then show ?thesis
    by (simp add: inbound_message_def example_env_def inbuf)
qed

lemma example_forward_loop:
  assumes "opc < 16"
  shows "forward_loop (upstream (example_env opc)) 0 [example_question]
           \<lparr>hdr = example_header opc, questions = [], answers = [], forwarded = [], replies = []\<rparr>
         = Some (\<lparr>hdr = (example_header opc)\<lparr>QuestionCount := 1, AnswerRecordCount := 0\<rparr>,
                  questions = [example_question], answers = [example_answer],
                  forwarded = [Header_ToBytes ((example_header opc)\<lparr>QuestionCount := 1,
                                 AnswerRecordCount := 0\<rparr>) @ Question_ToBytes example_question],
                  replies = [example_upstream_reply opc]\<rparr>, Completed)"
proof -
  let ?h = "(example_header opc)\<lparr>QuestionCount := 1, AnswerRecordCount := 0\<rparr>"
  let ?req = "\<lparr>MHeader = ?h, MQuestion = [example_question], MAnswer = [],
               Authority = 0, Additional = 0\<rparr>"
  let ?r = "Header_ToBytes (MHeader (example_upstream_reply opc))
              @ Question_ToBytes example_question @ Answer_ToBytes example_answer"
  obtain sp where q: "queryDNS ?req (Reply ?r)
      = Inr (Header_ToBytes (MHeader ?req) @ Question_ToBytes example_question,
             Some \<lparr>elems = ?r, spare = sp\<rparr>)"
    using queryDNS_reply [of ?req example_question ?r] by (auto simp add: example_lengths)
  have p: "parseRequest \<lparr>elems = ?r, spare = sp\<rparr> = Some (Inr (example_upstream_reply opc, None))"
    using parseRequest_reply_elems [OF example_wf(2) [OF assms] _ _ example_wf(3) example_wf(4),
        where rest = "[]" and s = "\<lparr>elems = ?r, spare = sp\<rparr>"]
    by (simp add: example_upstream_reply_def example_header_def)
  have u: "upstream (example_env opc) 0 = Reply ?r" by (simp add: example_env_def)
  show ?thesis
    using q p by (simp add: Let_def u example_upstream_reply_def)
qed

lemma example_run:
  assumes "opc < 16"
  shows "handleConnection (example_env opc) = Some (example_outcome opc)"
proof -
  let ?d = "Header_ToBytes (example_header opc) @ Question_ToBytes example_question"
  have inbuf: "copy_at (replicate 2048 0) 0 ?d = ?d @ replicate (2048 - length ?d) 0"
    by (rule copy_at_zeros_0) (simp add: example_lengths)
  have p: "parseRequest (full (?d @ replicate (2048 - length ?d) 0))
          = Some (Inr (example_query opc, None))"
    unfolding example_query_def
    by (rule parseRequest_query_elems [OF example_wf(1) [OF assms] _ _ example_wf(3),
          where rest = "replicate (2048 - length ?d) 0"])
       (simp_all add: example_header_def full_def)
  have i: "inbound (example_env opc) = Some ?d" "dial (example_env opc) = Connected"
    "client_ok (example_env opc)"
    by (simp_all add: example_env_def)
  have rh: "reply_header ((example_header opc)\<lparr>QuestionCount := 1, AnswerRecordCount := 0\<rparr>)
              (Suc 0) (Suc 0) = reply_header (example_header opc) 1 1"
    by (simp add: reply_header_update)
  show ?thesis
    unfolding handleConnection_def i
    using p
    by (simp add: i Let_def inbuf example_query_def example_forward_loop [OF assms]
          assemble_eq rh example_outcome_def example_merged_def example_response_def
          example_lengths max_udp_payload_def del: forward_loop.simps)
qed

lemma example_outcome_fields:
  "merged (example_outcome opc) = Some (example_merged opc)"
  "response (example_outcome opc) = Some (example_response opc)"
  "exit (example_outcome opc) = Completed"
  "delivered (example_outcome opc)"
  "upstream_replies (example_outcome opc) = [example_upstream_reply opc]"
  "sent_upstream (example_outcome opc)
     = [Header_ToBytes ((example_header opc)\<lparr>QuestionCount := 1, AnswerRecordCount := 0\<rparr>)
          @ Question_ToBytes example_question]"
  by (simp_all add: example_outcome_def)

section \<open>The claims\<close>

text \<open>
  C1. Decoding what an encoder produced should give the value back, for every
  well-formed header, question and resource record. The code does not do so for the
  root name. \<open>parseQuestion\<close> decodes the wire form \<open>00 00 01 00 01\<close> of a root question to
  the empty name with type 1 and class 1; \<open>Question.ToBytes\<close> encodes that question as
  \<open>00 00 00 01 00 01\<close>, one zero byte too many, and \<open>parseQuestion\<close> reads type 0 and class
  256 back from it. \<open>parseAnswer\<close> on the encoding of a root record with four bytes of
  RDATA reads RDLENGTH one byte early, as 11264, and panics.
\<close>

theorem C1_root_name_roundtrip_fails:
  "spec_wf_question \<lparr>QName = [], QType = 1, QClass = 1\<rparr>
   \<and> parseQuestion (full [0, 0, 1, 0, 1]) 0
       = Some (Inr (\<lparr>QName = [], QType = 1, QClass = 1\<rparr>, 5))
   \<and> Question_ToBytes \<lparr>QName = [], QType = 1, QClass = 1\<rparr> = [0, 0, 0, 1, 0, 1]
   \<and> parseQuestion (full (Question_ToBytes \<lparr>QName = [], QType = 1, QClass = 1\<rparr>)) 0
       = Some (Inr (\<lparr>QName = [], QType = 0, QClass = 256\<rparr>, 5))
   \<and> spec_wf_answer \<lparr>AName = [], AType = 1, AClass = 1, TTL = 300, RDLength = 4,
                       RData = [93, 184, 216, 34]\<rparr>
   \<and> parseAnswer (full (Answer_ToBytes \<lparr>AName = [], AType = 1, AClass = 1, TTL = 300,
                    RDLength = 4, RData = [93, 184, 216, 34]\<rparr>)) 0
       = Some (Inl SliceBoundsOutOfRange)"
  using root_wire_decoding root_question_encoding root_question_decoding root_answer_decoding
  by (simp add: spec_wf_question_def spec_wf_answer_def spec_wf_name_def)

text \<open>
  C2. When the loop of \<open>parseLabels\<close> meets, at offset \<open>i\<close>, a length byte of at least
  \<open>0xC0\<close> whose two bytes can be read, it takes the low 14 bits of those two bytes as an
  absolute offset, decodes the label sequence there, appends it to the labels read so
  far and returns \<open>i + 2\<close> as the next offset, whatever the next offset of the inner call
  was; nothing after the pointer is read. A panic or a non-returning inner call is
  passed on.
\<close>

theorem C2_pointer:
  assumes "i < slen buf" and "0xC0 \<le> unat (elems buf ! i)" and "i + 2 \<le> scap buf"
  shows "parseLabels_loop buf i labels =
           (case parseLabels buf (unat (Uint16 (take 2 (drop i (backing buf))) AND 0x3FFF)) of
              None \<Rightarrow> None
            | Some (Inl e) \<Rightarrow> Some (Inl e)
            | Some (Inr (labels', next)) \<Rightarrow> Some (Inr (labels @ labels', i + 2)))"
  using parseLabels_loop_pointer [of i buf labels] assms by (simp add: pointer_offset_def)

text \<open>The buffer \<open>1 a 1 b 0 C0 00\<close>: the name \<open>a.b\<close> at offset 0 and a pointer to it at
  offset 5.\<close>

lemma example_labels:
  "[1, 97, 1, 98, 0, 0xC0, 0x00] = enc_labels [''a'', ''b''] @ [0] @ [0xC0, 0x00 :: byte]"
  by (simp add: byte_of_char_def)

lemma example_parse_at_0:
  "parseLabels (full [1, 97, 1, 98, 0, 0xC0, 0x00]) 0 = Some (Inr ([''a'', ''b''], 5))"
  unfolding example_labels
  by (subst parseLabels_enc_full) (simp_all add: byte_of_char_def)

lemma example_offset:
  "unat (Uint16 (take 2 (drop 5 (backing (full [1, 97, 1, 98, 0, 0xC0, 0x00])))) AND 0x3FFF) = 0"
  by (simp add: backing_def full_def Uint16_def)

theorem C2_pointer_witness:
  "5 < slen (full [1, 97, 1, 98, 0, 0xC0, 0x00])
   \<and> 0xC0 \<le> unat (elems (full [1, 97, 1, 98, 0, 0xC0, 0x00]) ! 5)
   \<and> 5 + 2 \<le> scap (full [1, 97, 1, 98, 0, 0xC0, 0x00])
   \<and> parseLabels_loop (full [1, 97, 1, 98, 0, 0xC0, 0x00]) 5 [''www'']
        = Some (Inr ([''www'', ''a'', ''b''], 7))"
proof -
  let ?b = "full [1, 97, 1, 98, 0, 0xC0, 0x00]"
  have h1: "5 < slen ?b" by (simp add: slen_def full_def)
  have h2: "0xC0 \<le> unat (elems ?b ! 5)" by (simp add: full_def)
  have h3: "5 + 2 \<le> scap ?b" by (simp add: scap_def full_def)
  show ?thesis
    using C2_pointer [OF h1 h2 h3, of "[''www'']"] h1 h2 h3
    by (simp add: example_offset example_parse_at_0)
qed

text \<open>
  C3, as the code has it. \<open>parseLabels\<close> keeps no set of visited offsets and no depth
  counter, and has no \<open>CompressionLoop\<close> or \<open>CompressionDepthExceeded\<close> result: on the
  two-byte buffer \<open>C0 00\<close>, a pointer to itself, the call at offset 0 never returns.
\<close>

theorem C3_self_pointer_never_returns: "parseLabels (full [0xC0, 0x00]) 0 = None"
  by (rule parseLabels_self_pointer)

text \<open>
  C3, amended. Name decoding returns, with the labels or with a run-time panic, whenever
  every compression pointer it follows targets an offset strictly below the start of the
  label sequence that the pointer ends.
\<close>

theorem C3_backward_pointers_return:
  "pointers_backward buf start \<Longrightarrow> \<exists>r. parseLabels buf start = Some r"
  by (rule pointers_backward_returns)

lemma example_first_pointer_5: "first_pointer (full [1, 97, 1, 98, 0, 0xC0, 0x00]) 5 = Some 0"
  by (subst first_pointer.simps)
     (simp add: slen_def scap_def full_def pointer_offset_def backing_def Uint16_def)

lemma example_first_pointer_0: "first_pointer (full [1, 97, 1, 98, 0, 0xC0, 0x00]) 0 = None"
  apply (subst first_pointer.simps, simp add: slen_def scap_def full_def)
  apply (subst first_pointer.simps, simp add: slen_def scap_def full_def)
  apply (subst first_pointer.simps, simp add: slen_def scap_def full_def)
  done

theorem C3_backward_pointers_return_witness:
  "pointers_backward (full [1, 97, 1, 98, 0, 0xC0, 0x00]) 5
   \<and> (\<exists>r. parseLabels (full [1, 97, 1, 98, 0, 0xC0, 0x00]) 5 = Some r)"
proof -
  have "pointers_backward (full [1, 97, 1, 98, 0, 0xC0, 0x00]) 0"
    by (subst pointers_backward.simps) (simp add: example_first_pointer_0)
  then have h: "pointers_backward (full [1, 97, 1, 98, 0, 0xC0, 0x00]) 5"
    by (subst pointers_backward.simps) (simp add: example_first_pointer_5)
  show ?thesis using C3_backward_pointers_return [OF h] h by simp
qed

text \<open>
  C4, as the code has it. No decoder checks a length before it reads and none returns an
  error: an 11-byte buffer makes \<open>parseHeader\<close> panic at \<open>buf[10:12]\<close>, and a label that
  declares 10 bytes where 5 remain makes \<open>parseLabels\<close> panic at the label's re-slice.
  The panic is Go's run-time bounds check, not a \<open>TruncatedInput\<close> result.
\<close>

theorem C4_short_header_panics:
  "parseHeader (full (replicate 11 0)) = Inl SliceBoundsOutOfRange
   \<and> parseLabels (full [10, 1, 2, 3, 4, 5]) 0 = Some (Inl SliceBoundsOutOfRange)"
proof
  show "parseHeader (full (replicate 11 0)) = Inl SliceBoundsOutOfRange"
    by (simp add: parseHeader_def Uint16_at_cases index_def bindP_def full_def slen_def scap_def)
  show "parseLabels (full [10, 1, 2, 3, 4, 5]) 0 = Some (Inl SliceBoundsOutOfRange)"
    unfolding parseLabels_def
    by (rule parseLabels_loop_label_panic) (simp_all add: full_def slen_def scap_def)
qed

text \<open>
  C4, amended. A buffer too short for the field being read ends the decoder in a run-time
  out-of-range panic: \<open>parseHeader\<close> panics exactly when the slice has capacity below
  12 or length below 4; the label loop panics when a label's declared length runs past
  the capacity; \<open>parseAnswer\<close> panics when RDLENGTH runs past the capacity.
\<close>

theorem C4_out_of_range_panics:
  "((\<exists>p. parseHeader buf = Inl p) \<longleftrightarrow> scap buf < 12 \<or> slen buf < 4)
   \<and> (i < slen buf \<and> elems buf ! i \<noteq> 0 \<and> unat (elems buf ! i) < 0xC0
        \<and> scap buf < i + 1 + unat (elems buf ! i)
      \<longrightarrow> parseLabels_loop buf i labels = Some (Inl SliceBoundsOutOfRange))
   \<and> (parseLabels buf start = Some (Inr (ls, j)) \<and> Uint16_at buf (j + 8) = Inr n
        \<and> scap buf < j + 10 + unat n
      \<longrightarrow> parseAnswer buf start = Some (Inl SliceBoundsOutOfRange))"
  using parseHeader_panics_iff [of buf] parseLabels_loop_label_panic [of i buf labels]
    parseAnswer_rdata_panic [of buf start ls j n]
  by simp

lemma example_answer_labels:
  "[1, 97, 0, 0, 1, 0, 1, 0, 0, 0, 5, 0, 9, 7, 7] = enc_labels [''a''] @ [0] @ [0, 1, 0, 1, 0, 0, 0, 5, 0, 9, 7, 7 :: byte]"
  by (simp add: byte_of_char_def)

lemma example_answer_parse:
  "parseLabels (full [1, 97, 0, 0, 1, 0, 1, 0, 0, 0, 5, 0, 9, 7, 7]) 0 = Some (Inr ([''a''], 3))"
  unfolding example_answer_labels
  by (subst parseLabels_enc_full) (simp_all add: byte_of_char_def)

theorem C4_out_of_range_panics_witness:
  "(scap (full (replicate 11 0)) < 12 \<or> slen (full (replicate 11 0)) < 4)
   \<and> (\<exists>p. parseHeader (full (replicate 11 0)) = Inl p)
   \<and> 0 < slen (full [10, 1, 2, 3, 4, 5]) \<and> elems (full [10, 1, 2, 3, 4, 5]) ! 0 \<noteq> 0
   \<and> unat (elems (full [10, 1, 2, 3, 4, 5]) ! 0) < 0xC0
   \<and> scap (full [10, 1, 2, 3, 4, 5]) < 0 + 1 + unat (elems (full [10, 1, 2, 3, 4, 5]) ! 0)
   \<and> parseLabels_loop (full [10, 1, 2, 3, 4, 5]) 0 [] = Some (Inl SliceBoundsOutOfRange)
   \<and> parseLabels (full [1, 97, 0, 0, 1, 0, 1, 0, 0, 0, 5, 0, 9, 7, 7]) 0 = Some (Inr ([''a''], 3))
   \<and> Uint16_at (full [1, 97, 0, 0, 1, 0, 1, 0, 0, 0, 5, 0, 9, 7, 7]) (3 + 8) = Inr 9
   \<and> scap (full [1, 97, 0, 0, 1, 0, 1, 0, 0, 0, 5, 0, 9, 7, 7]) < 3 + 10 + unat (9 :: uint16)
   \<and> parseAnswer (full [1, 97, 0, 0, 1, 0, 1, 0, 0, 0, 5, 0, 9, 7, 7]) 0
        = Some (Inl SliceBoundsOutOfRange)"
proof -
  let ?h = "full (replicate 11 0)"
  let ?l = "full [10, 1, 2, 3, 4, 5]"
  let ?a = "full [1, 97, 0, 0, 1, 0, 1, 0, 0, 0, 5, 0, 9, 7, 7]"
  have h: "scap ?h < 12 \<or> slen ?h < 4" by (simp add: scap_def full_def)
  have l1: "0 < slen ?l" and l2: "elems ?l ! 0 \<noteq> 0" and l3: "unat (elems ?l ! 0) < 0xC0"
    and l4: "scap ?l < 0 + 1 + unat (elems ?l ! 0)"
    by (simp_all add: slen_def scap_def full_def)
  have a1: "parseLabels ?a 0 = Some (Inr ([''a''], 3))" by (rule example_answer_parse)
  have a2: "Uint16_at ?a (3 + 8) = Inr 9"
    by (simp add: Uint16_at_cases scap_def backing_def full_def Uint16_def)
  have a3: "scap ?a < 3 + 10 + unat (9 :: uint16)" by (simp add: scap_def full_def)
  have r1: "\<exists>p. parseHeader ?h = Inl p"
    using C4_out_of_range_panics [where buf = ?h, THEN conjunct1] h by (rule iffD2)
  have r2: "parseLabels_loop ?l 0 [] = Some (Inl SliceBoundsOutOfRange)"
    using C4_out_of_range_panics [where buf = ?l and i = 0 and labels = "[]",
        THEN conjunct2, THEN conjunct1] l1 l2 l3 l4 by blast
  have r3: "parseAnswer ?a 0 = Some (Inl SliceBoundsOutOfRange)"
    using C4_out_of_range_panics [where buf = ?a and start = 0 and ls = "[''a'']" and j = 3
        and n = 9, THEN conjunct2, THEN conjunct2] a1 a2 a3 by blast
  show ?thesis
    using h r1 l1 l2 l3 l4 r2 a1 a2 a3 r3 by (intro conjI)
qed

text \<open>
  C5, as the code has it. The label loop of \<open>ToBytes\<close> has no length check and no
  \<open>LabelTooLong\<close> result: a name that is one label of 64 bytes is encoded, with the
  length byte 64.
\<close>

theorem C5_long_label_is_encoded:
  "Question_ToBytes \<lparr>QName = ''aaaaaaaaaaaaaaaaaaaaaaaaaaaaaaaaaaaaaaaaaaaaaaaaaaaaaaaaaaaaaaaa'', QType = 1, QClass = 1\<rparr>
     = [64] @ map byte_of_char ''aaaaaaaaaaaaaaaaaaaaaaaaaaaaaaaaaaaaaaaaaaaaaaaaaaaaaaaaaaaaaaaa'' @ [0, 0, 1, 0, 1]"
  by (simp add: Question_ToBytes_eq be16_def)

text \<open>
  C5, amended. Name encoding never fails, whatever the lengths of the labels. For every
  name whose dot-separated labels are all non-empty, \<open>Question.ToBytes\<close> and
  \<open>Answer.ToBytes\<close> emit, for each label, one length byte (the length modulo 256) and the
  label's bytes, then a zero byte, then the fixed fields.
\<close>

theorem C5_name_encoding:
  "(list_all (\<lambda>l. l \<noteq> []) (Split (QName q) CHR ''.'') \<longrightarrow>
      Question_ToBytes q = spec_encodeName (QName q) @ be16 (QType q) @ be16 (QClass q))
   \<and> (list_all (\<lambda>l. l \<noteq> []) (Split (AName a) CHR ''.'') \<longrightarrow>
      Answer_ToBytes a = spec_encodeName (AName a) @ be16 (AType a) @ be16 (AClass a)
                           @ be32 (TTL a) @ be16 (RDLength a) @ RData a)"
  by (simp add: Question_ToBytes_eq Answer_ToBytes_eq spec_encodeName_eq)

theorem C5_name_encoding_witness:
  "list_all (\<lambda>l. l \<noteq> []) (Split ''example.com'' CHR ''.'')
   \<and> Question_ToBytes \<lparr>QName = ''example.com'', QType = 1, QClass = 1\<rparr>
       = [7] @ map byte_of_char ''example'' @ [3] @ map byte_of_char ''com'' @ [0] @ [0, 1, 0, 1]
   \<and> Answer_ToBytes \<lparr>AName = ''example.com'', AType = 1, AClass = 1, TTL = 300, RDLength = 4,
        RData = [93, 184, 216, 34]\<rparr>
       = [7] @ map byte_of_char ''example'' @ [3] @ map byte_of_char ''com'' @ [0]
         @ [0, 1, 0, 1, 0, 0, 1, 44, 0, 4, 93, 184, 216, 34]"
proof -
  have h: "list_all (\<lambda>l. l \<noteq> []) (Split ''example.com'' CHR ''.'')" by simp
  have s: "spec_encodeName ''example.com''
             = [7] @ map byte_of_char ''example'' @ [3] @ map byte_of_char ''com'' @ [0]"
    by (simp add: spec_encodeName_def)
  show ?thesis
    using C5_name_encoding [of "\<lparr>QName = ''example.com'', QType = 1, QClass = 1\<rparr>"
        "\<lparr>AName = ''example.com'', AType = 1, AClass = 1, TTL = 300, RDLength = 4,
          RData = [93, 184, 216, 34]\<rparr>"] h
    by (simp add: s be16_def be32_def)
qed

text \<open>
  C6. When \<open>handleConnection\<close> assembles a reply (every upstream round trip succeeded),
  the reply's header has QR = 1 and its ResponseCode is 4 exactly when the OpCode of the
  inbound header is not 0, and 0 when that OpCode is 0; the first 12 bytes of the reply
  decode to that header.
\<close>

theorem C6_response_code:
  assumes "handleConnection e = Some out" and "inbound_message e = Some msg"
    and "merged out = Some m" and "response out = Some bytes"
  shows "QR (MHeader m) = 1
       \<and> (ResponseCode (MHeader m) = 4 \<longleftrightarrow> OpCode (MHeader msg) \<noteq> 0)
       \<and> (OpCode (MHeader msg) = 0 \<longrightarrow> ResponseCode (MHeader m) = 0)
       \<and> parseHeader (full bytes) = Inr (MHeader m)"
proof -
  obtain st where
    fl: "forward_loop (upstream e) 0 (MQuestion msg)
       \<lparr>hdr = MHeader msg, questions = [], answers = [], forwarded = [], replies = []\<rparr>
       = Some (st, Completed)"
    and out: "out = \<lparr>exit = Completed, sent_upstream = forwarded st, upstream_replies = replies st,
                merged = Some m,
                response = Some (Header_ToBytes (MHeader m)
                  @ concat (map Question_ToBytes (MQuestion m))
                  @ concat (map Answer_ToBytes (MAnswer m))),
                delivered = (client_ok e \<and> length (Header_ToBytes (MHeader m)
                  @ concat (map Question_ToBytes (MQuestion m))
                  @ concat (map Answer_ToBytes (MAnswer m))) \<le> max_udp_payload)\<rparr>"
    and m: "m = \<lparr>MHeader = reply_header (MHeader msg) (length (questions st)) (length (answers st)),
              MQuestion = questions st, MAnswer = answers st, Authority = 0, Additional = 0\<rparr>"
    by (rule handleConnection_completed [OF assms(1-3)])
  have wf: "wf_header (MHeader m)"
    unfolding m using inbound_message_wf [OF assms(2)] by (simp add: wf_reply_header)
  from out assms(4) have bytes: "bytes = Header_ToBytes (MHeader m)
      @ (concat (map Question_ToBytes (MQuestion m)) @ concat (map Answer_ToBytes (MAnswer m)))"
    by simp
  have "parseHeader (full bytes) = Inr (MHeader m)"
    by (rule parseHeader_elems [OF wf]) (simp add: bytes full_def)
  then show ?thesis by (simp add: m reply_header_def)
qed

theorem C6_response_code_witness:
  "handleConnection (example_env 2) = Some (example_outcome 2)
   \<and> inbound_message (example_env 2) = Some (example_query 2)
   \<and> merged (example_outcome 2) = Some (example_merged 2)
   \<and> response (example_outcome 2) = Some (example_response 2)
   \<and> OpCode (MHeader (example_query 2)) = 2
   \<and> QR (MHeader (example_merged 2)) = 1
   \<and> ResponseCode (MHeader (example_merged 2)) = 4
   \<and> parseHeader (full (example_response 2)) = Inr (MHeader (example_merged 2))
   \<and> handleConnection (example_env 0) = Some (example_outcome 0)
   \<and> inbound_message (example_env 0) = Some (example_query 0)
   \<and> merged (example_outcome 0) = Some (example_merged 0)
   \<and> response (example_outcome 0) = Some (example_response 0)
   \<and> OpCode (MHeader (example_query 0)) = 0
   \<and> QR (MHeader (example_merged 0)) = 1
   \<and> ResponseCode (MHeader (example_merged 0)) = 0"
proof -
  have a: "handleConnection (example_env 2) = Some (example_outcome 2)"
    by (rule example_run) simp
  have b: "inbound_message (example_env 2) = Some (example_query 2)"
    by (rule example_inbound_message) simp
  have a0: "handleConnection (example_env 0) = Some (example_outcome 0)"
    by (rule example_run) simp
  have b0: "inbound_message (example_env 0) = Some (example_query 0)"
    by (rule example_inbound_message) simp
  have o: "OpCode (MHeader (example_query 2)) = 2" "OpCode (MHeader (example_query 0)) = 0"
    by (simp_all add: example_query_def example_header_def)
  show ?thesis
    using C6_response_code [OF a b example_outcome_fields(1) example_outcome_fields(2)]
      C6_response_code [OF a0 b0 example_outcome_fields(1) example_outcome_fields(2)]
      a b a0 b0 o
    by (simp add: example_outcome_fields)
qed

text \<open>
  C7. The requests handed to the upstream connection are, for the inbound questions in
  order (all of them when the reply is assembled, a prefix of them when a round trip
  fails or a call panics), the encoding of the inbound header with QuestionCount set to
  1 and AnswerRecordCount set to 0, followed by the encoding of that one question and
  nothing else.
\<close>

theorem C7_forwarded_requests:
  assumes "handleConnection e = Some out" and "inbound_message e = Some msg"
  shows "\<exists>n\<le>length (MQuestion msg).
           sent_upstream out =
             map (\<lambda>q. Header_ToBytes ((MHeader msg)\<lparr>QuestionCount := 1, AnswerRecordCount := 0\<rparr>)
                        @ Question_ToBytes q)
                 (take n (MQuestion msg))
         \<and> (exit out = Completed \<longrightarrow> n = length (MQuestion msg))"
proof -
  let ?st0 = "\<lparr>hdr = MHeader msg, questions = [], answers = [], forwarded = [], replies = []\<rparr>"
  let ?f = "\<lambda>q. Header_ToBytes ((MHeader msg)\<lparr>QuestionCount := 1, AnswerRecordCount := 0\<rparr>)
                  @ Question_ToBytes q"
  from assms(2) obtain d err where d: "inbound e = Some d"
    and p: "parseRequest (full (copy_at (replicate 2048 0) 0 d)) = Some (Inr (msg, err))"
    by (auto simp add: inbound_message_def split: option.splits sum.splits)
  from parseRequest_error_None [OF p] have err: "err = None" .
  show ?thesis
  proof (cases "dial e = Connected")
    case False
    with assms(1) d p err have "\<exists>ex. ex \<noteq> Completed \<and> out = stopped ex [] []"
      by (cases "dial e") (auto simp add: handleConnection_def Let_def)
    then show ?thesis by (intro exI [of _ 0]) (auto simp add: stopped_def)
  next
    case True
    with assms(1) d p err obtain st ex where
      fl: "forward_loop (upstream e) 0 (MQuestion msg) ?st0 = Some (st, ex)"
      by (cases "forward_loop (upstream e) 0 (MQuestion msg) ?st0")
         (auto simp add: handleConnection_def Let_def)
    from forward_loop_forwarded [OF fl] obtain n where n: "n \<le> length (MQuestion msg)"
      "forwarded st = map ?f (take n (MQuestion msg))"
      "ex = Completed \<longrightarrow> n = length (MQuestion msg)"
      by (auto simp add: forwarded_request_def [abs_def])
    from assms(1) d p err True fl
    have "out = stopped ex (forwarded st) (replies st) \<or>
          (ex = Completed \<and> (\<exists>mm rr dd. out = \<lparr>exit = Completed, sent_upstream = forwarded st,
              upstream_replies = replies st, merged = mm, response = rr, delivered = dd\<rparr>))"
      by (cases ex) (auto simp add: handleConnection_def Let_def split: prod.splits)
    then have "sent_upstream out = forwarded st \<and> exit out = ex"
      by (auto simp add: stopped_def)
    with n show ?thesis by (intro exI [of _ n]) simp
  qed
qed

theorem C7_forwarded_requests_witness:
  "handleConnection (example_env 0) = Some (example_outcome 0)
   \<and> inbound_message (example_env 0) = Some (example_query 0)
   \<and> MQuestion (example_query 0) = [example_question]
   \<and> exit (example_outcome 0) = Completed
   \<and> sent_upstream (example_outcome 0)
       = [Header_ToBytes ((MHeader (example_query 0))\<lparr>QuestionCount := 1, AnswerRecordCount := 0\<rparr>)
            @ Question_ToBytes example_question]"
proof -
  have a: "handleConnection (example_env 0) = Some (example_outcome 0)"
    by (rule example_run) simp
  have b: "inbound_message (example_env 0) = Some (example_query 0)"
    by (rule example_inbound_message) simp
  have q: "MQuestion (example_query 0) = [example_question]"
    by (simp add: example_query_def)
  from C7_forwarded_requests [OF a b] obtain n where
    "sent_upstream (example_outcome 0) =
       map (\<lambda>q. Header_ToBytes ((MHeader (example_query 0))\<lparr>QuestionCount := 1,
                   AnswerRecordCount := 0\<rparr>) @ Question_ToBytes q)
           (take n (MQuestion (example_query 0)))"
    and "exit (example_outcome 0) = Completed \<longrightarrow> n = length (MQuestion (example_query 0))"
    by blast
  then show ?thesis using a b q by (simp add: example_outcome_fields(3))
qed

text \<open>
  C8. The reply is the encoded header followed by the encoded accumulated questions and
  the encoded accumulated answers, each in order; the accumulated lists are the
  questions and the answers of the decoded upstream replies, the \<open>i\<close>-th of which is the
  reply to the request for the \<open>i\<close>-th inbound question; the header's QuestionCount and
  AnswerRecordCount are the lengths of the two lists as 16-bit values, and equal them as
  numbers in every reply that \<open>WriteToUDP\<close> sends.
\<close>

theorem C8_merged_reply:
  assumes "handleConnection e = Some out" and "inbound_message e = Some msg"
    and "merged out = Some m" and "response out = Some bytes"
  shows "bytes = Header_ToBytes (MHeader m) @ concat (map Question_ToBytes (MQuestion m))
                   @ concat (map Answer_ToBytes (MAnswer m))
       \<and> MQuestion m = concat (map MQuestion (upstream_replies out))
       \<and> MAnswer m = concat (map MAnswer (upstream_replies out))
       \<and> length (upstream_replies out) = length (MQuestion msg)
       \<and> (\<forall>i<length (MQuestion msg). \<exists>w resp.
            queryDNS \<lparr>MHeader = (MHeader msg)\<lparr>QuestionCount := 1, AnswerRecordCount := 0\<rparr>,
                      MQuestion = [MQuestion msg ! i], MAnswer = [], Authority = 0,
                      Additional = 0\<rparr>
                     (upstream e i) = Inr (w, Some resp)
            \<and> parseRequest resp = Some (Inr (upstream_replies out ! i, None)))
       \<and> QuestionCount (MHeader m) = of_nat (length (MQuestion m))
       \<and> AnswerRecordCount (MHeader m) = of_nat (length (MAnswer m))
       \<and> (delivered out \<longrightarrow>
            unat (QuestionCount (MHeader m)) = length (MQuestion m)
          \<and> unat (AnswerRecordCount (MHeader m)) = length (MAnswer m))"
proof -
  obtain st where
    fl: "forward_loop (upstream e) 0 (MQuestion msg)
       \<lparr>hdr = MHeader msg, questions = [], answers = [], forwarded = [], replies = []\<rparr>
       = Some (st, Completed)"
    and out: "out = \<lparr>exit = Completed, sent_upstream = forwarded st, upstream_replies = replies st,
                merged = Some m,
                response = Some (Header_ToBytes (MHeader m)
                  @ concat (map Question_ToBytes (MQuestion m))
                  @ concat (map Answer_ToBytes (MAnswer m))),
                delivered = (client_ok e \<and> length (Header_ToBytes (MHeader m)
                  @ concat (map Question_ToBytes (MQuestion m))
                  @ concat (map Answer_ToBytes (MAnswer m))) \<le> max_udp_payload)\<rparr>"
    and m: "m = \<lparr>MHeader = reply_header (MHeader msg) (length (questions st)) (length (answers st)),
              MQuestion = questions st, MAnswer = answers st, Authority = 0, Additional = 0\<rparr>"
    by (rule handleConnection_completed [OF assms(1-3)])
  from forward_loop_acc [OF fl] have acc: "questions st = concat (map MQuestion (replies st))"
    "answers st = concat (map MAnswer (replies st))" "length (replies st) = length (MQuestion msg)"
    by auto
  have b: "bytes = Header_ToBytes (MHeader m) @ concat (map Question_ToBytes (MQuestion m))
                   @ concat (map Answer_ToBytes (MAnswer m))"
    using out assms(4) by simp
  have r: "upstream_replies out = replies st" using out by simp
  have o: "\<forall>i<length (MQuestion msg). \<exists>w resp.
            queryDNS \<lparr>MHeader = (MHeader msg)\<lparr>QuestionCount := 1, AnswerRecordCount := 0\<rparr>,
                      MQuestion = [MQuestion msg ! i], MAnswer = [], Authority = 0,
                      Additional = 0\<rparr>
                     (upstream e i) = Inr (w, Some resp)
            \<and> parseRequest resp = Some (Inr (upstream_replies out ! i, None))"
    using forward_loop_replies [OF fl] acc(3) r by simp
  have c: "QuestionCount (MHeader m) = of_nat (length (MQuestion m))"
    "AnswerRecordCount (MHeader m) = of_nat (length (MAnswer m))"
    by (simp_all add: m reply_header_def)
  have d: "unat (QuestionCount (MHeader m)) = length (MQuestion m)
          \<and> unat (AnswerRecordCount (MHeader m)) = length (MAnswer m)" if "delivered out"
  proof -
    from that out have "length (Header_ToBytes (MHeader m)
                  @ concat (map Question_ToBytes (MQuestion m))
                  @ concat (map Answer_ToBytes (MAnswer m))) \<le> max_udp_payload"
      by simp
    from datagram_counts [OF this] show ?thesis by (simp add: c)
  qed
  show ?thesis
    using b r c d acc o by (simp add: m)
qed

theorem C8_merged_reply_witness:
  "handleConnection (example_env 0) = Some (example_outcome 0)
   \<and> inbound_message (example_env 0) = Some (example_query 0)
   \<and> merged (example_outcome 0) = Some (example_merged 0)
   \<and> response (example_outcome 0) = Some (example_response 0)
   \<and> delivered (example_outcome 0)
   \<and> MQuestion (example_merged 0) = [example_question]
   \<and> MAnswer (example_merged 0) = [example_answer]
   \<and> example_response 0 = Header_ToBytes (MHeader (example_merged 0))
        @ Question_ToBytes example_question @ Answer_ToBytes example_answer
   \<and> unat (QuestionCount (MHeader (example_merged 0))) = 1
   \<and> unat (AnswerRecordCount (MHeader (example_merged 0))) = 1"
proof -
  have a: "handleConnection (example_env 0) = Some (example_outcome 0)"
    by (rule example_run) simp
  have b: "inbound_message (example_env 0) = Some (example_query 0)"
    by (rule example_inbound_message) simp
  have m: "MQuestion (example_merged 0) = [example_question]"
    "MAnswer (example_merged 0) = [example_answer]"
    by (simp_all add: example_merged_def)
  show ?thesis
    using C8_merged_reply [OF a b example_outcome_fields(1) example_outcome_fields(2)] a b m
    by (simp add: example_outcome_fields)
qed

text \<open>
  C9. In the header of the assembled reply every field other than QR, ResponseCode,
  QuestionCount and AnswerRecordCount has the value of the inbound header, in particular
  AuthorativeRecordCount and AdditionalRecordCount, while the reply holds nothing after
  the header but the encoded questions and answers.
\<close>

theorem C9_header_frame:
  assumes "handleConnection e = Some out" and "inbound_message e = Some msg"
    and "merged out = Some m" and "response out = Some bytes"
  shows "MHeader m = (MHeader msg)\<lparr>QR := QR (MHeader m), ResponseCode := ResponseCode (MHeader m),
                         QuestionCount := QuestionCount (MHeader m),
                         AnswerRecordCount := AnswerRecordCount (MHeader m)\<rparr>
       \<and> AuthorativeRecordCount (MHeader m) = AuthorativeRecordCount (MHeader msg)
       \<and> AdditionalRecordCount (MHeader m) = AdditionalRecordCount (MHeader msg)
       \<and> bytes = Header_ToBytes (MHeader m) @ concat (map Question_ToBytes (MQuestion m))
                   @ concat (map Answer_ToBytes (MAnswer m))
       \<and> parseHeader (full bytes) = Inr (MHeader m)"
proof -
  obtain st where
    fl: "forward_loop (upstream e) 0 (MQuestion msg)
       \<lparr>hdr = MHeader msg, questions = [], answers = [], forwarded = [], replies = []\<rparr>
       = Some (st, Completed)"
    and out: "out = \<lparr>exit = Completed, sent_upstream = forwarded st, upstream_replies = replies st,
                merged = Some m,
                response = Some (Header_ToBytes (MHeader m)
                  @ concat (map Question_ToBytes (MQuestion m))
                  @ concat (map Answer_ToBytes (MAnswer m))),
                delivered = (client_ok e \<and> length (Header_ToBytes (MHeader m)
                  @ concat (map Question_ToBytes (MQuestion m))
                  @ concat (map Answer_ToBytes (MAnswer m))) \<le> max_udp_payload)\<rparr>"
    and m: "m = \<lparr>MHeader = reply_header (MHeader msg) (length (questions st)) (length (answers st)),
              MQuestion = questions st, MAnswer = answers st, Authority = 0, Additional = 0\<rparr>"
    by (rule handleConnection_completed [OF assms(1-3)])
  have wf: "wf_header (MHeader m)"
    unfolding m using inbound_message_wf [OF assms(2)] by (simp add: wf_reply_header)
  from out assms(4) have bytes: "bytes = Header_ToBytes (MHeader m)
      @ (concat (map Question_ToBytes (MQuestion m)) @ concat (map Answer_ToBytes (MAnswer m)))"
    by simp
  have "parseHeader (full bytes) = Inr (MHeader m)"
    by (rule parseHeader_elems [OF wf]) (simp add: bytes full_def)
  with bytes show ?thesis by (simp add: m reply_header_def)
qed

theorem C9_header_frame_witness:
  "handleConnection (example_env 2) = Some (example_outcome 2)
   \<and> inbound_message (example_env 2) = Some (example_query 2)
   \<and> merged (example_outcome 2) = Some (example_merged 2)
   \<and> response (example_outcome 2) = Some (example_response 2)
   \<and> MHeader (example_merged 2)
       = (MHeader (example_query 2))\<lparr>QR := 1, ResponseCode := 4, QuestionCount := 1,
                                       AnswerRecordCount := 1\<rparr>
   \<and> AuthorativeRecordCount (MHeader (example_merged 2)) = 0
   \<and> AdditionalRecordCount (MHeader (example_merged 2)) = 0"
proof -
  have a: "handleConnection (example_env 2) = Some (example_outcome 2)"
    by (rule example_run) simp
  have b: "inbound_message (example_env 2) = Some (example_query 2)"
    by (rule example_inbound_message) simp
  have f: "QR (MHeader (example_merged 2)) = 1" "ResponseCode (MHeader (example_merged 2)) = 4"
    "QuestionCount (MHeader (example_merged 2)) = 1"
    "AnswerRecordCount (MHeader (example_merged 2)) = 1"
    "AuthorativeRecordCount (MHeader (example_query 2)) = 0"
    "AdditionalRecordCount (MHeader (example_query 2)) = 0"
    by (simp_all add: example_merged_def example_query_def reply_header_def example_header_def)
  show ?thesis
    using C9_header_frame [OF a b example_outcome_fields(1) example_outcome_fields(2)] a b f
    by (simp add: example_outcome_fields)
qed

text \<open>
  C10. Whenever \<open>parseRequest\<close> returns, the error it returns is \<open>nil\<close>: the branches of
  \<open>handleConnection\<close> that handle a parse error are never taken. A call that does not
  return with a message ends in a run-time panic or does not return at all.
\<close>

theorem C10_parseRequest_error_nil:
  "parseRequest request = Some (Inr (msg, err)) \<Longrightarrow> err = None"
  by (rule parseRequest_error_None)

lemma example_request:
  "[0, 1, 1, 0, 0, 1, 0, 0, 0, 0, 0, 0, 1, 97, 0, 0, 1, 0, 1]
     = [0, 1, 1, 0, 0, 1, 0, 0, 0, 0, 0, 0] @ enc_labels [''a''] @ 0 # [0, 1, 0, 1 :: byte]"
  by (simp add: byte_of_char_def)

lemma example_request_labels:
  "parseLabels (full [0, 1, 1, 0, 0, 1, 0, 0, 0, 0, 0, 0, 1, 97, 0, 0, 1, 0, 1]) 12
     = Some (Inr ([''a''], 15))"
  unfolding example_request parseLabels_def full_def
  using parseLabels_loop_enc [of "[''a'']" "[0, 1, 1, 0, 0, 1, 0, 0, 0, 0, 0, 0]" "[0, 1, 0, 1]" "[]" "[]"]
  by (simp add: byte_of_char_def eval_nat_numeral)

lemma example_request_header:
  "parseHeader (full [0, 1, 1, 0, 0, 1, 0, 0, 0, 0, 0, 0, 1, 97, 0, 0, 1, 0, 1])
     = Inr \<lparr>ID = 1, QR = 0, OpCode = 0, AuthorativeAnswer = 0, Truncation = 0,
            RecursionDesired = 1, RecursionAvailable = 0, Reserved = 0, ResponseCode = 0,
            QuestionCount = 1, AnswerRecordCount = 0, AuthorativeRecordCount = 0,
            AdditionalRecordCount = 0\<rparr>"
  by (simp add: parseHeader_def Uint16_at_cases index_def bindP_def full_def slen_def scap_def
        backing_def Uint16_def)

lemma example_request_parse:
  "parseRequest (full [0, 1, 1, 0, 0, 1, 0, 0, 0, 0, 0, 0, 1, 97, 0, 0, 1, 0, 1])
     = Some (Inr (\<lparr>MHeader = \<lparr>ID = 1, QR = 0, OpCode = 0, AuthorativeAnswer = 0, Truncation = 0,
            RecursionDesired = 1, RecursionAvailable = 0, Reserved = 0, ResponseCode = 0,
            QuestionCount = 1, AnswerRecordCount = 0, AuthorativeRecordCount = 0,
            AdditionalRecordCount = 0\<rparr>,
          MQuestion = [\<lparr>QName = ''a'', QType = 1, QClass = 1\<rparr>], MAnswer = [],
          Authority = 0, Additional = 0\<rparr>, None))"
proof -
  let ?b = "full [0, 1, 1, 0, 0, 1, 0, 0, 0, 0, 0, 0, 1, 97, 0, 0, 1, 0, 1]"
  have q: "parseQuestion ?b 12 = Some (Inr (\<lparr>QName = ''a'', QType = 1, QClass = 1\<rparr>, 19))"
    unfolding parseQuestion_def example_request_labels
    by (simp add: Uint16_at_cases bindP_def full_def scap_def backing_def Uint16_def)
  have qs: "parseQuestions ?b (Suc 0) 12 [] = Some (Inr ([\<lparr>QName = ''a'', QType = 1, QClass = 1\<rparr>], 19))"
    by (simp add: q)
  show ?thesis
    unfolding parseRequest_def example_request_header
    by (simp add: q qs)
qed

theorem C10_parseRequest_error_nil_witness:
  "\<exists>msg. parseRequest (full [0, 1, 1, 0, 0, 1, 0, 0, 0, 0, 0, 0, 1, 97, 0, 0, 1, 0, 1])
           = Some (Inr (msg, None))"
proof -
  obtain msg err where
    r: "parseRequest (full [0, 1, 1, 0, 0, 1, 0, 0, 0, 0, 0, 0, 1, 97, 0, 0, 1, 0, 1])
          = Some (Inr (msg, err))"
    using example_request_parse by blast
  from C10_parseRequest_error_nil [OF r] r show ?thesis by blast
qed

end
